theory Spec2Isabelle
  imports Main "HOL-Library.AList"
begin


section \<open>JavaScript string primitives used by the site adapter resolver\<close>

text \<open>
  Strings are lists of 8-bit characters: the model covers JavaScript strings whose code
  units are below 256 (no surrogates, so \<open>encodeURI\<close> and \<open>encodeURIComponent\<close>
  never raise URIError on them).
\<close>

fun indexOf_aux :: "string \<Rightarrow> string \<Rightarrow> nat \<Rightarrow> int" where
  "indexOf_aux sub [] k = (if sub = [] then int k else - 1)"
| "indexOf_aux sub (c # cs) k =
     (if take (length sub) (c # cs) = sub then int k else indexOf_aux sub cs (Suc k))"

text \<open>\<open>s.indexOf(sub, from)\<close>: the start position is clamped to \<open>[0, s.length]\<close>.\<close>

definition indexOf :: "string \<Rightarrow> string \<Rightarrow> int \<Rightarrow> int" where
  "indexOf s sub from =
     (let k = min (nat (max from 0)) (length s) in indexOf_aux sub (drop k s) k)"

text \<open>\<open>s.substring(a)\<close> and \<open>s.substring(a, b)\<close>: arguments clamped, swapped when \<open>a > b\<close>.\<close>

definition substringFrom :: "string \<Rightarrow> int \<Rightarrow> string" where
  "substringFrom s a = drop (nat (max a 0)) s"

definition substring :: "string \<Rightarrow> int \<Rightarrow> int \<Rightarrow> string" where
  "substring s a b =
     (let a' = min (nat (max a 0)) (length s); b' = min (nat (max b 0)) (length s)
      in take (max a' b' - min a' b') (drop (min a' b') s))"

definition endsWith :: "string \<Rightarrow> string \<Rightarrow> bool" where
  "endsWith s t = (length t \<le> length s \<and> drop (length s - length t) s = t)"

definition isWhiteSpace :: "char \<Rightarrow> bool" where
  "isWhiteSpace c = ((of_char c :: nat) \<in> {9, 10, 11, 12, 13, 32, 160})"

definition trim :: "string \<Rightarrow> string" where
  "trim s = rev (dropWhile isWhiteSpace (rev (dropWhile isWhiteSpace s)))"

definition hexDigit :: "nat \<Rightarrow> char" where
  "hexDigit n = ''0123456789ABCDEF'' ! (n mod 16)"

definition percentByte :: "nat \<Rightarrow> string" where
  "percentByte b = [CHR ''%'', hexDigit (b div 16), hexDigit b]"

text \<open>A code unit below 128 is one UTF-8 byte, one in 128..255 is two.\<close>

definition percentEncode :: "char \<Rightarrow> string" where
  "percentEncode c =
     (let n = (of_char c :: nat)
      in if n < 128 then percentByte n
         else percentByte (192 + n div 64) @ percentByte (128 + n mod 64))"

definition uriUnreserved :: "char \<Rightarrow> bool" where
  "uriUnreserved c =
     (c \<in> set ''ABCDEFGHIJKLMNOPQRSTUVWXYZabcdefghijklmnopqrstuvwxyz0123456789-_.!~*'()'')"

definition uriReserved :: "char \<Rightarrow> bool" where
  "uriReserved c = (c \<in> set '';/?:@&=+$,#'')"

definition encodeURIComponent :: "string \<Rightarrow> string" where
  "encodeURIComponent s =
     concat (map (\<lambda>c. if uriUnreserved c then [c] else percentEncode c) s)"

definition encodeURI :: "string \<Rightarrow> string" where
  "encodeURI s =
     concat (map (\<lambda>c. if uriUnreserved c \<or> uriReserved c then [c] else percentEncode c) s)"

section \<open>Site adapters: \<open>deepSearchInjects\<close> and \<open>buildDeepSearchUrl\<close>\<close>

record inject =
  filename :: string
  buildSearchUrl :: "string \<Rightarrow> string \<Rightarrow> string"

definition bingInject :: inject where
  "bingInject =
     \<lparr>filename = ''bing.js'',
      buildSearchUrl = (\<lambda>url keyword. ''https://bing.com/search?q='' @ encodeURI keyword)\<rparr>"

definition duckduckgoInject :: inject where
  "duckduckgoInject =
     \<lparr>filename = ''duckduckgo.js'',
      buildSearchUrl = (\<lambda>url keyword. ''https://duckduckgo.com/?q='' @ encodeURI keyword)\<rparr>"

definition googleInject :: inject where
  "googleInject =
     \<lparr>filename = ''google.js'',
      buildSearchUrl = (\<lambda>url keyword. ''https://www.google.com/search?q='' @ encodeURI keyword)\<rparr>"

definition defaultBuildSearchUrl :: "string \<Rightarrow> string \<Rightarrow> string" where
  "defaultBuildSearchUrl url0 keyword =
     (let url1 = trim url0;
          idx1 = indexOf url1 ''//'' 0;
          url2 = (if idx1 > - 1 then substringFrom url1 (idx1 + 2) else url1);
          idx2 = indexOf url2 ''/'' 2;
          url3 = (if idx2 > - 1 then substring url2 0 idx2 else url2);
          keyword' = ''site:'' @ url3 @ '' '' @ keyword
      in ''https://www.google.com/search?q='' @ encodeURIComponent keyword')"

definition defaultInject :: inject where
  "defaultInject = \<lparr>filename = ''google.js'', buildSearchUrl = defaultBuildSearchUrl\<rparr>"

text \<open>The object literal, in the key order \<open>Object.keys\<close> enumerates.\<close>

definition deepSearchInjects :: "(string \<times> inject) list" where
  "deepSearchInjects =
     [(''bing.com'', bingInject),
      (''duckduckgo.com'', duckduckgoInject),
      (''google.com'', googleInject),
      (''default'', defaultInject)]"

definition domainMatches :: "string \<Rightarrow> string \<Rightarrow> bool" where
  "domainMatches baseUrl domain =
     (baseUrl = domain \<or> endsWith baseUrl (''.'' @ domain) \<or> endsWith baseUrl (''/'' @ domain))"

text \<open>The \<open>for\<close> loop over the keys, leaving at the first match.\<close>

fun findInject :: "string \<Rightarrow> (string \<times> inject) list \<Rightarrow> inject option" where
  "findInject baseUrl [] = None"
| "findInject baseUrl ((domain, adapter) # rest) =
     (if domainMatches baseUrl domain then Some adapter else findInject baseUrl rest)"

definition baseUrlOf :: "string \<Rightarrow> string" where
  "baseUrlOf url =
     (let idx = indexOf url ''/'' (indexOf url ''//'' 0 + 2)
      in if idx > - 1 then substring url 0 idx else url)"

definition resolveInject :: "string \<Rightarrow> inject" where
  "resolveInject url =
     (case findInject (baseUrlOf url) deepSearchInjects of
        None \<Rightarrow> defaultInject
      | Some adapter \<Rightarrow> adapter)"

record searchTarget =
  st_filename :: string
  st_url :: string

definition buildDeepSearchUrl :: "string \<Rightarrow> string \<Rightarrow> searchTarget" where
  "buildDeepSearchUrl url keyword =
     (let adapter = resolveInject url
      in \<lparr>st_filename = filename adapter, st_url = buildSearchUrl adapter url keyword\<rparr>)"

section \<open>Values of the tool's parameter\<close>

text \<open>
  The argument of \<open>execute\<close> is \<open>unknown\<close>. Numbers are the integer-valued ones;
  an object is its list of properties (the first binding of a key is the effective one).
\<close>

datatype jsval =
    JUndefined
  | JNull
  | JBool bool
  | JNum int
  | JStr string
  | JArr "jsval list"
  | JObj "(string \<times> jsval) list"

fun truthy :: "jsval \<Rightarrow> bool" where
  "truthy JUndefined = False"
| "truthy JNull = False"
| "truthy (JBool b) = b"
| "truthy (JNum n) = (n \<noteq> 0)"
| "truthy (JStr s) = (s \<noteq> [])"
| "truthy (JArr vs) = True"
| "truthy (JObj ps) = True"

text \<open>
  \<open>typeof params === "object" && params !== null && "query" in params\<close>; an array has
  index keys and \<open>length\<close> only.
\<close>

fun validParams :: "jsval \<Rightarrow> bool" where
  "validParams (JObj ps) = (map_of ps ''query'' \<noteq> None)"
| "validParams v = False"

fun getProp :: "jsval \<Rightarrow> string \<Rightarrow> jsval" where
  "getProp (JObj ps) k = (case map_of ps k of None \<Rightarrow> JUndefined | Some v \<Rightarrow> v)"
| "getProp v k = JUndefined"

text \<open>\<open>if (!url) url = "https://google.com"\<close> and \<open>maxResults || 5\<close>.\<close>

definition urlArg :: "jsval \<Rightarrow> jsval" where
  "urlArg params =
     (let u = getProp params ''url'' in if \<not> truthy u then JStr ''https://google.com'' else u)"

definition maxResultsArg :: "jsval \<Rightarrow> jsval" where
  "maxResultsArg params =
     (let m = getProp params ''maxResults'' in if truthy m then m else JNum 5)"

section \<open>Data model of a task\<close>

datatype error =
    InvalidParameters
  | WindowCreateError
  | TabCreateError
  | SchemaViolation

record link =
  link_title :: string
  link_url :: string
  link_content :: "string option"
  link_page_title :: "string option"

record linkGroup =
  g_url :: string
  g_links :: "link list"
  g_filename :: string

text \<open>
  What the injected script answers to \<open>page:getDetailLinks\<close> (\<open>links\<close>) or to
  \<open>page:getContent\<close> (\<open>title\<close>, \<open>content\<close>); a field that is absent is \<open>None\<close>.
\<close>

record response =
  r_links :: "link list option"
  r_title :: "string option"
  r_content :: "string option"

text \<open>
  The outcome of \<open>injectScript\<close>, \<open>sleep\<close> and \<open>sendMessage\<close> in a handler: one of the
  two calls rejects, or the message is answered (with no response object: \<open>None\<close>).
\<close>

datatype outcome = InjectError | MessageError | Reply "response option"

text \<open>
  \<open>Discovery i\<close> is the listener id \<open>taskId + "_" + i\<close>, \<open>Extraction i j\<close> is
  \<open>taskId + "_" + i + "_" + j\<close>: the strings of one task are distinct exactly when
  these are (\<open>eventIdStr\<close> below is injective).
\<close>

datatype eventId = Discovery nat | Extraction nat nat

text \<open>The decimal digits of a loop index, as string concatenation renders it.\<close>

function digits :: "nat \<Rightarrow> string" where
  "digits n =
     (if n < 10 then [char_of (48 + n)] else digits (n div 10) @ [char_of (48 + n mod 10)])"
  by pat_completeness auto
termination
  by (relation "measure id") auto

fun eventIdStr :: "string \<Rightarrow> eventId \<Rightarrow> string" where
  "eventIdStr taskId (Discovery i) = taskId @ ''_'' @ digits i"
| "eventIdStr taskId (Extraction i j) = taskId @ ''_'' @ digits i @ ''_'' @ digits j"

text \<open>\<open>changeInfo.status\<close>: \<open>"complete"\<close>, \<open>"unloaded"\<close>, or anything else.\<close>

datatype tabStatus = Complete | Unloaded | OtherStatus

text \<open>What a listener's closure holds: \<open>tab.id\<close>, \<open>filename\<close>, and the URL of its tab.\<close>

record session =
  s_tabId :: nat
  s_filename :: string
  s_url :: string

text \<open>
  The calls a handler makes on its collaborators, in the order made. \<open>Unsubscribed\<close> is
  a \<open>removeListener\<close> that found the listener registered.
\<close>

datatype effect =
    BranchComplete eventId
  | BranchUnloaded eventId
  | Unsubscribed eventId
  | CountDown eventId
  | TabRemove eventId nat
  | HandlerRejected eventId
  | CatchCountDown nat
  | WindowRemove nat

text \<open>Where the body of \<open>deepSearch\<close> is suspended, or how \<open>execute\<close> ended.\<close>

datatype pc =
    AwaitWindow
  | P1Create nat
  | P1Await
  | P2Create nat nat
  | P2Await
  | Returned "link list"
  | Failed error

text \<open>
  \<open>detailLinkGroups\<close> is the array that \<open>doDetailLinkGroups\<close> returns and that
  \<open>searchInfo.result\<close> aliases. \<open>si_failedLinks\<close> holds references to link objects:
  the pair \<open>(i, j)\<close> is the object \<open>detailLinkGroups[i].links[j]\<close>. \<open>inflight\<close> are the
  handlers suspended in their \<open>"complete"\<close> branch.
\<close>

record state =
  pc :: pc
  searchs :: "(string \<times> string) list"
  detailsMaxNum :: int
  window :: "nat option"
  closeWindow :: bool
  listeners :: "(eventId \<times> session) list"
  inflight :: "(eventId \<times> session) list"
  latch1 :: nat
  latch2 :: nat
  detailLinkGroups :: "linkGroup list"
  si_total :: nat
  si_running :: int
  si_succeed :: nat
  si_failed :: nat
  si_failedLinks :: "(nat \<times> nat) list"
  trace :: "effect list"

section \<open>Event bus and completion barrier\<close>

text \<open>
  Modelled from the spec: \<open>utils.MsgEvent\<close> is not among the sources. \<open>subscribe(id,
  handler)\<close> registers exactly one handler under the id, \<open>unsubscribe(id)\<close> removes it
  and does nothing when it is absent.
\<close>

definition addListener :: "eventId \<Rightarrow> session \<Rightarrow> state \<Rightarrow> state" where
  "addListener eid h s = s\<lparr>listeners := AList.update eid h (listeners s)\<rparr>"

definition removeListener :: "eventId \<Rightarrow> state \<Rightarrow> state" where
  "removeListener eid s =
     s\<lparr>listeners := AList.delete eid (listeners s),
       trace := trace s @ (if eid \<in> fst ` set (listeners s) then [Unsubscribed eid] else [])\<rparr>"

text \<open>
  Modelled from the spec: \<open>utils.CountDownLatch\<close> is not among the sources.
  \<open>countDown()\<close> decrements the remaining count, floored at 0.
\<close>

definition countDown1 :: "state \<Rightarrow> state" where
  "countDown1 s = s\<lparr>latch1 := latch1 s - 1\<rparr>"

text \<open>Modelled from the spec: the same \<open>countDown()\<close>, on the barrier of \<open>doPageContent\<close>.\<close>

definition countDown2 :: "state \<Rightarrow> state" where
  "countDown2 s = s\<lparr>latch2 := latch2 s - 1\<rparr>"

definition emit :: "effect \<Rightarrow> state \<Rightarrow> state" where
  "emit e s = s\<lparr>trace := trace s @ [e]\<rparr>"

section \<open>The body of \<open>execute\<close>, \<open>deepSearch\<close>, \<open>doDetailLinkGroups\<close> and \<open>doPageContent\<close>\<close>

text \<open>\<open>links.filter(s => s.content)\<close>: an absent or empty content is falsy.\<close>

definition hasContent :: "link \<Rightarrow> bool" where
  "hasContent l = (case link_content l of None \<Rightarrow> False | Some c \<Rightarrow> c \<noteq> [])"

text \<open>\<open>searchInfo.result[0]?.links || []\<close>, filtered.\<close>

definition response_of :: "state \<Rightarrow> link list" where
  "response_of s =
     (case detailLinkGroups s of [] \<Rightarrow> [] | g # gs \<Rightarrow> filter hasContent (g_links g))"

text \<open>
  \<open>doPageContent\<close> returns, \<open>deepSearch\<close> removes the window it created, \<open>execute\<close>
  filters: no suspension in between.
\<close>

definition finish :: "state \<Rightarrow> state" where
  "finish s =
     s\<lparr>pc := Returned (response_of s),
       trace := trace s @
         (case window s of None \<Rightarrow> [] | Some w \<Rightarrow> if closeWindow s then [WindowRemove w] else [])\<rparr>"

text \<open>
  Modelled from the spec: \<open>await(timeout)\<close> returns once the remaining count is 0 or
  the timeout has elapsed, and never fails.
\<close>

definition enterP2Await :: "state \<Rightarrow> state" where
  "enterP2Await s = (if latch2 s = 0 then finish s else s\<lparr>pc := P2Await\<rparr>)"

text \<open>
  The position that the two nested \<open>for\<close> loops of \<open>doPageContent\<close> reach from group
  \<open>i\<close>, link \<open>j\<close>; both bounds are read again at every test.
\<close>

function nextLink :: "linkGroup list \<Rightarrow> nat \<Rightarrow> nat \<Rightarrow> (nat \<times> nat) option" where
  "nextLink gs i j =
     (if i < length gs
      then (if j < length (g_links (gs ! i)) then Some (i, j) else nextLink gs (Suc i) 0)
      else None)"
  by pat_completeness auto
termination
  by (relation "measure (\<lambda>(gs, i, j). length gs - i)") auto

definition advanceP2 :: "state \<Rightarrow> nat \<Rightarrow> nat \<Rightarrow> state" where
  "advanceP2 s i j =
     (case nextLink (detailLinkGroups s) i j of
        Some (i', j') \<Rightarrow> s\<lparr>pc := P2Create i' j'\<rparr>
      | None \<Rightarrow> enterP2Await s)"

definition startPhase2 :: "state \<Rightarrow> state" where
  "startPhase2 s =
     (let t = sum_list (map (\<lambda>g. length (g_links g)) (detailLinkGroups s))
      in advanceP2
           (s\<lparr>si_total := t, si_running := 0, si_succeed := 0, si_failed := 0,
              si_failedLinks := [], latch2 := t\<rparr>) 0 0)"

definition enterP1Await :: "state \<Rightarrow> state" where
  "enterP1Await s = (if latch1 s = 0 then startPhase2 s else s\<lparr>pc := P1Await\<rparr>)"

definition advanceP1 :: "state \<Rightarrow> nat \<Rightarrow> state" where
  "advanceP1 s i = (if i < length (searchs s) then s\<lparr>pc := P1Create i\<rparr> else enterP1Await s)"

definition startPhase1 :: "state \<Rightarrow> state" where
  "startPhase1 s = advanceP1 (s\<lparr>detailLinkGroups := [], latch1 := length (searchs s)\<rparr>) 0"

text \<open>
  Modelled from the spec: a barrier whose remaining count reached 0 releases the body
  suspended in its \<open>await\<close>, which resumes before anything else runs.
\<close>

definition wake :: "state \<Rightarrow> state" where
  "wake s =
     (case pc s of
        P1Await \<Rightarrow> if latch1 s = 0 then startPhase2 s else s
      | P2Await \<Rightarrow> if latch2 s = 0 then finish s else s
      | _ \<Rightarrow> s)"

text \<open>\<open>xs.slice(0, n)\<close>: a negative end counts from the end of the array.\<close>

definition slice0 :: "'a list \<Rightarrow> int \<Rightarrow> 'a list" where
  "slice0 xs n = (if n < 0 then take (nat (int (length xs) + n)) xs else take (nat n) xs)"

definition latchCountDown1 :: "eventId \<Rightarrow> state \<Rightarrow> state" where
  "latchCountDown1 eid s = emit (CountDown eid) (countDown1 s)"

definition latchCountDown2 :: "eventId \<Rightarrow> state \<Rightarrow> state" where
  "latchCountDown2 eid s = emit (CountDown eid) (countDown2 s)"

definition tabsRemove :: "eventId \<Rightarrow> nat \<Rightarrow> state \<Rightarrow> state" where
  "tabsRemove eid tabId s = emit (TabRemove eid tabId) s"

definition suspend :: "eventId \<Rightarrow> session \<Rightarrow> state \<Rightarrow> state" where
  "suspend eid h s = s\<lparr>inflight := AList.update eid h (inflight s)\<rparr>"

subsection \<open>The listener of \<open>doDetailLinkGroups\<close>\<close>

text \<open>Up to its first \<open>await\<close>.\<close>

definition discoveryListener :: "nat \<Rightarrow> session \<Rightarrow> nat \<Rightarrow> tabStatus \<Rightarrow> state \<Rightarrow> state" where
  "discoveryListener i h tabId status s =
     (if tabId \<noteq> s_tabId h then s
      else case status of
        Complete \<Rightarrow>
          (let s1 = emit (BranchComplete (Discovery i)) s;
               s2 = removeListener (Discovery i) s1
           in suspend (Discovery i) h s2)
      | Unloaded \<Rightarrow>
          (let s1 = emit (BranchUnloaded (Discovery i)) s;
               s2 = latchCountDown1 (Discovery i) s1;
               s3 = tabsRemove (Discovery i) (s_tabId h) s2
           in removeListener (Discovery i) s3)
      | OtherStatus \<Rightarrow> s)"

text \<open>
  After the last \<open>await\<close>. There is no \<open>try\<close> in this branch: a rejected
  \<open>injectScript\<close> or \<open>sendMessage\<close> ends the handler there.
\<close>

definition discoveryResume :: "nat \<Rightarrow> session \<Rightarrow> outcome \<Rightarrow> state \<Rightarrow> state" where
  "discoveryResume i h oc s =
     (case oc of
        Reply r \<Rightarrow>
          (let detailLinks =
                 (case r of
                    None \<Rightarrow> []
                  | Some resp \<Rightarrow> (case r_links resp of None \<Rightarrow> [] | Some ls \<Rightarrow> ls));
               links = slice0 detailLinks (detailsMaxNum s);
               s1 = s\<lparr>detailLinkGroups := detailLinkGroups s @
                        [\<lparr>g_url = s_url h, g_links = links, g_filename = s_filename h\<rparr>]\<rparr>;
               s2 = latchCountDown1 (Discovery i) s1
           in tabsRemove (Discovery i) (s_tabId h) s2)
      | _ \<Rightarrow> emit (HandlerRejected (Discovery i)) s)"

subsection \<open>The listener of \<open>doPageContent\<close>\<close>

definition extractionListener ::
  "nat \<Rightarrow> nat \<Rightarrow> session \<Rightarrow> nat \<Rightarrow> tabStatus \<Rightarrow> state \<Rightarrow> state" where
  "extractionListener i j h tabId status s =
     (if tabId \<noteq> s_tabId h then s
      else case status of
        Complete \<Rightarrow>
          (let s1 = emit (BranchComplete (Extraction i j)) s;
               s2 = removeListener (Extraction i j) s1
           in suspend (Extraction i j) h s2)
      | Unloaded \<Rightarrow>
          (let s1 = emit (BranchUnloaded (Extraction i j)) s;
               s2 = s1\<lparr>si_running := si_running s1 - 1\<rparr>;
               s3 = latchCountDown2 (Extraction i j) s2;
               s4 = tabsRemove (Extraction i j) (s_tabId h) s3
           in removeListener (Extraction i j) s4)
      | OtherStatus \<Rightarrow> s)"

text \<open>\<open>link.content = result.content; link.page_title = result.title\<close>, in place.\<close>

definition writeLink :: "nat \<Rightarrow> nat \<Rightarrow> response \<Rightarrow> state \<Rightarrow> state" where
  "writeLink i j r s =
     (let g = detailLinkGroups s ! i;
          l = g_links g ! j;
          l' = l\<lparr>link_content := r_content r, link_page_title := r_title r\<rparr>
      in s\<lparr>detailLinkGroups := (detailLinkGroups s)[i := g\<lparr>g_links := (g_links g)[j := l']\<rparr>]\<rparr>)"

text \<open>The rest of the \<open>try\<close>, then \<open>catch\<close> and \<open>finally\<close>.\<close>

definition extractionResume :: "nat \<Rightarrow> nat \<Rightarrow> session \<Rightarrow> outcome \<Rightarrow> state \<Rightarrow> state" where
  "extractionResume i j h oc s =
     (let s1 =
            (case oc of
               Reply (Some r) \<Rightarrow>
                 (let s0 = writeLink i j r s in s0\<lparr>si_succeed := si_succeed s0 + 1\<rparr>)
             | _ \<Rightarrow> s\<lparr>si_failed := si_failed s + 1, si_failedLinks := si_failedLinks s @ [(i, j)]\<rparr>);
          s2 = s1\<lparr>si_running := si_running s1 - 1\<rparr>;
          s3 = latchCountDown2 (Extraction i j) s2;
          s4 = tabsRemove (Extraction i j) (s_tabId h) s3
      in removeListener (Extraction i j) s4)"

subsection \<open>Publishing and settling\<close>

fun deliver :: "nat \<Rightarrow> tabStatus \<Rightarrow> eventId \<times> session \<Rightarrow> state \<Rightarrow> state" where
  "deliver tabId status (Discovery i, h) s = discoveryListener i h tabId status s"
| "deliver tabId status (Extraction i j, h) s = extractionListener i j h tabId status s"

text \<open>
  Modelled from the spec: \<open>publish(event)\<close> delivers the event to every handler
  registered when it is called. A handler runs up to its first suspension.
\<close>

definition publish :: "nat \<Rightarrow> tabStatus \<Rightarrow> state \<Rightarrow> state" where
  "publish tabId status s =
     foldl (\<lambda>s' e. wake (deliver tabId status e s')) s (listeners s)"

fun resume :: "eventId \<Rightarrow> session \<Rightarrow> outcome \<Rightarrow> state \<Rightarrow> state" where
  "resume (Discovery i) h oc s = discoveryResume i h oc s"
| "resume (Extraction i j) h oc s = extractionResume i j h oc s"

definition settle :: "eventId \<Rightarrow> outcome \<Rightarrow> state \<Rightarrow> state" where
  "settle eid oc s =
     (case map_of (inflight s) eid of
        None \<Rightarrow> s
      | Some h \<Rightarrow> wake (resume eid h oc (s\<lparr>inflight := AList.delete eid (inflight s)\<rparr>)))"

subsection \<open>What the browser does, one task of the event loop at a time\<close>

datatype action =
    WindowCreated nat
  | WindowCreateFailed
  | TabCreated nat
  | TabCreateFailed
  | TabUpdated nat tabStatus
  | Settled eventId outcome
  | Timeout

definition openDiscoveryTab :: "nat \<Rightarrow> nat \<Rightarrow> state \<Rightarrow> state" where
  "openDiscoveryTab i tabId s =
     (let tgt = buildDeepSearchUrl (fst (searchs s ! i)) (snd (searchs s ! i));
          s1 = addListener (Discovery i)
                 \<lparr>s_tabId = tabId, s_filename = st_filename tgt, s_url = st_url tgt\<rparr> s
      in advanceP1 s1 (Suc i))"

definition openExtractionTab :: "nat \<Rightarrow> nat \<Rightarrow> nat \<Rightarrow> state \<Rightarrow> state" where
  "openExtractionTab i j tabId s =
     (let g = detailLinkGroups s ! i;
          l = g_links g ! j;
          s1 = s\<lparr>si_running := si_running s + 1\<rparr>;
          s2 = addListener (Extraction i j)
                 \<lparr>s_tabId = tabId, s_filename = g_filename g, s_url = link_url l\<rparr> s1
      in advanceP2 s2 i (Suc j))"

text \<open>
  One task of the event loop. An action that nothing waits for changes nothing.
  Modelled from the spec: \<open>Timeout\<close> is the timeout of the barrier that the body is
  suspended on; \<open>await\<close> then returns, and the handlers still outstanding go on.
\<close>

fun step :: "state \<Rightarrow> action \<Rightarrow> state" where
  "step s (WindowCreated w) =
     (case pc s of
        AwaitWindow \<Rightarrow> startPhase1 (s\<lparr>window := Some w, closeWindow := True\<rparr>)
      | _ \<Rightarrow> s)"
| "step s WindowCreateFailed =
     (case pc s of AwaitWindow \<Rightarrow> s\<lparr>pc := Failed WindowCreateError\<rparr> | _ \<Rightarrow> s)"
| "step s (TabCreated tabId) =
     (case pc s of
        P1Create i \<Rightarrow> openDiscoveryTab i tabId s
      | P2Create i j \<Rightarrow> openExtractionTab i j tabId s
      | _ \<Rightarrow> s)"
| "step s TabCreateFailed =
     (case pc s of
        P1Create i \<Rightarrow> advanceP1 (emit (CatchCountDown i) (countDown1 s)) (Suc i)
      | P2Create i j \<Rightarrow> s\<lparr>pc := Failed TabCreateError\<rparr>
      | _ \<Rightarrow> s)"
| "step s (TabUpdated tabId status) = publish tabId status s"
| "step s (Settled eid oc) = settle eid oc s"
| "step s Timeout =
     (case pc s of P1Await \<Rightarrow> startPhase2 s | P2Await \<Rightarrow> finish s | _ \<Rightarrow> s)"

definition run :: "state \<Rightarrow> action list \<Rightarrow> state" where
  "run s acts = foldl step s acts"

subsection \<open>Entry points\<close>

definition blank :: state where
  "blank =
     \<lparr>pc = AwaitWindow, searchs = [], detailsMaxNum = 0, window = None, closeWindow = False,
      listeners = [], inflight = [], latch1 = 0, latch2 = 0, detailLinkGroups = [],
      si_total = 0, si_running = 0, si_succeed = 0, si_failed = 0, si_failedLinks = [],
      trace = []\<rparr>"

definition deepSearch_init :: "(string \<times> string) list \<Rightarrow> int \<Rightarrow> nat option \<Rightarrow> state" where
  "deepSearch_init ss n w =
     (let s = blank\<lparr>searchs := ss, detailsMaxNum := n\<rparr>
      in case w of
           None \<Rightarrow> s\<lparr>pc := AwaitWindow\<rparr>
         | Some wid \<Rightarrow> startPhase1 (s\<lparr>window := Some wid\<rparr>))"


text \<open>
  \<open>execute\<close> up to its first suspension. The casts \<open>url as string\<close> and
  \<open>query as string\<close> and the parameter type \<open>number\<close> are unchecked in the source;
  an argument that does not have these types ends the model in \<open>SchemaViolation\<close>,
  which stands for no behaviour of the code.
\<close>

definition execute_init :: "jsval \<Rightarrow> state" where
  "execute_init params =
     (if \<not> validParams params then blank\<lparr>pc := Failed InvalidParameters\<rparr>
      else case (urlArg params, getProp params ''query'', maxResultsArg params) of
             (JStr u, JStr q, JNum n) \<Rightarrow> deepSearch_init [(u, q)] n None
           | _ \<Rightarrow> blank\<lparr>pc := Failed SchemaViolation\<rparr>)"

definition execute :: "jsval \<Rightarrow> action list \<Rightarrow> pc" where
  "execute params acts = pc (run (execute_init params) acts)"

text \<open>The link objects that \<open>searchInfo.failedLinks\<close> refers to.\<close>

definition failedLinkObjects :: "state \<Rightarrow> link list" where
  "failedLinkObjects s =
     map (\<lambda>(i, j). g_links (detailLinkGroups s ! i) ! j) (si_failedLinks s)"

section \<open>Predicates used in the statements and proofs\<close>

text \<open>The body was resumed and did not fail; if it returned, with the filtered first group.\<close>

definition resumed_pc :: "state \<Rightarrow> bool" where
  "resumed_pc s \<longleftrightarrow>
     (\<forall>e. pc s \<noteq> Failed e) \<and> (\<forall>r. pc s = Returned r \<longrightarrow> r = response_of s)"

text \<open>The same of a transition, for a body that may have ended before it.\<close>

definition settled_pc :: "state \<Rightarrow> state \<Rightarrow> bool" where
  "settled_pc s s' \<longleftrightarrow>
     (\<forall>e. pc s' = Failed e \<longrightarrow> pc s = Failed e) \<and>
     (\<forall>r. pc s' = Returned r \<longrightarrow> pc s = Returned r \<or> r = response_of s')"


text \<open>No link group has more links than the limit.\<close>

definition groupsBounded :: "state \<Rightarrow> bool" where
  "groupsBounded s \<longleftrightarrow>
     (\<forall>n \<in> set (map (\<lambda>g. length (g_links g)) (detailLinkGroups s)). int n \<le> detailsMaxNum s)"

text \<open>
  The calls of the trace, by what they are and the listener that made them; taking the
  \<open>"complete"\<close> branch and taking the \<open>"unloaded"\<close> branch are the same kind.
\<close>

datatype kind = Branch | Unsub | Count | Close | Reject

fun kindOf :: "effect \<Rightarrow> (eventId \<times> kind) option" where
  "kindOf (BranchComplete eid) = Some (eid, Branch)"
| "kindOf (BranchUnloaded eid) = Some (eid, Branch)"
| "kindOf (Unsubscribed eid) = Some (eid, Unsub)"
| "kindOf (CountDown eid) = Some (eid, Count)"
| "kindOf (TabRemove eid tabId) = Some (eid, Close)"
| "kindOf (HandlerRejected eid) = Some (eid, Reject)"
| "kindOf (CatchCountDown i) = None"
| "kindOf (WindowRemove w) = None"

text \<open>How often the listener \<open>eid\<close> did something of kind \<open>k\<close>.\<close>

definition occ :: "kind \<Rightarrow> eventId \<Rightarrow> state \<Rightarrow> nat" where
  "occ k eid s = length (filter (\<lambda>x. kindOf x = Some (eid, k)) (trace s))"

definition tally :: "eventId \<Rightarrow> state \<Rightarrow> nat \<times> nat \<times> nat \<times> nat \<times> nat" where
  "tally eid s = (occ Branch eid s, occ Unsub eid s, occ Count eid s, occ Close eid s, occ Reject eid s)"

fun isDiscovery :: "eventId \<Rightarrow> bool" where
  "isDiscovery (Discovery i) = True"
| "isDiscovery (Extraction i j) = False"

text \<open>The listener ids that the loops have yet to reach.\<close>

fun future :: "eventId \<Rightarrow> pc \<Rightarrow> bool" where
  "future eid AwaitWindow = True"
| "future (Discovery k) (P1Create i) = (i \<le> k)"
| "future (Extraction a b) (P1Create i) = True"
| "future (Discovery k) P1Await = False"
| "future (Extraction a b) P1Await = True"
| "future (Discovery k) (P2Create i j) = False"
| "future (Extraction a b) (P2Create i j) = (i < a \<or> (i = a \<and> j \<le> b))"
| "future eid P2Await = False"
| "future eid (Returned r) = False"
| "future eid (Failed e) = False"

text \<open>
  The life of one listener: registered, it has done nothing; suspended in its
  \<open>"complete"\<close> branch, it has taken the branch and removed itself; otherwise it has done
  nothing, or everything once, or (a discovery listener) was ended by a rejection.
\<close>

definition sessionOk :: "eventId \<Rightarrow> state \<Rightarrow> bool" where
  "sessionOk eid s \<longleftrightarrow>
     (if eid \<in> fst ` set (listeners s)
      then tally eid s = (0, 0, 0, 0, 0) \<and> eid \<notin> fst ` set (inflight s)
      else if eid \<in> fst ` set (inflight s) then tally eid s = (1, 1, 0, 0, 0)
      else tally eid s = (0, 0, 0, 0, 0) \<or> tally eid s = (1, 1, 1, 1, 0) \<or>
           (tally eid s = (1, 1, 0, 0, 1) \<and> isDiscovery eid))
     \<and> (future eid (pc s) \<longrightarrow>
          eid \<notin> fst ` set (listeners s) \<and> eid \<notin> fst ` set (inflight s) \<and>
          tally eid s = (0, 0, 0, 0, 0))"

definition sessionsOk :: "state \<Rightarrow> bool" where
  "sessionsOk s \<longleftrightarrow> distinct (map fst (listeners s)) \<and> (\<forall>eid. sessionOk eid s)"

text \<open>
  How many discovery (\<open>d\<close> true) or extraction (\<open>d\<close> false) listeners a list holds, and
  how many of them are registered or suspended.
\<close>

definition cnt :: "bool \<Rightarrow> (eventId \<times> session) list \<Rightarrow> nat" where
  "cnt d al = length (filter (\<lambda>e. isDiscovery (fst e) = d) al)"

definition alive :: "bool \<Rightarrow> state \<Rightarrow> nat" where
  "alive d s = cnt d (listeners s) + cnt d (inflight s)"

definition linkCounts :: "state \<Rightarrow> nat list" where
  "linkCounts s = map (\<lambda>g. length (g_links g)) (detailLinkGroups s)"

text \<open>The links that the loops of \<open>doPageContent\<close> have yet to open.\<close>

definition pendingLinks :: "state \<Rightarrow> nat" where
  "pendingLinks s =
     (case pc s of P2Create i j \<Rightarrow> sum_list (drop i (linkCounts s)) - j | _ \<Rightarrow> 0)"

definition stats :: "state \<Rightarrow> bool" where
  "stats s \<longleftrightarrow>
     si_succeed s + si_failed s \<le> si_total s \<and> length (si_failedLinks s) = si_failed s"





text \<open>Link discovery has not returned yet.\<close>

fun phase1 :: "pc \<Rightarrow> bool" where
  "phase1 AwaitWindow = True"
| "phase1 (P1Create i) = True"
| "phase1 P1Await = True"
| "phase1 p = False"

text \<open>
  How many times an extraction listener has counted the barrier down, and how many times
  one has taken its \<open>"unloaded"\<close> branch.
\<close>

fun countsExtraction :: "effect \<Rightarrow> bool" where
  "countsExtraction (CountDown (Extraction i j)) = True"
| "countsExtraction x = False"

fun unloadsExtraction :: "effect \<Rightarrow> bool" where
  "unloadsExtraction (BranchUnloaded (Extraction i j)) = True"
| "unloadsExtraction x = False"

definition counted :: "state \<Rightarrow> nat" where
  "counted s = length (filter countsExtraction (trace s))"

definition unloaded :: "state \<Rightarrow> nat" where
  "unloaded s = length (filter unloadsExtraction (trace s))"



text \<open>Nothing is taken from the trace: \<open>s'\<close> is \<open>s\<close> after more calls.\<close>

definition extends :: "state \<Rightarrow> state \<Rightarrow> bool" where
  "extends s s' \<longleftrightarrow> (\<exists>xs. trace s' = trace s @ xs)"

section \<open>Adapter resolution\<close>

lemma endsWith_iff: "endsWith s t \<longleftrightarrow> (\<exists>p. s = p @ t)"
proof
  assume h: "endsWith s t"
  then have "s = take (length s - length t) s @ t"
    by (metis append_take_drop_id endsWith_def)
  then show "\<exists>p. s = p @ t" ..
next
  assume "\<exists>p. s = p @ t"
  then show "endsWith s t" by (auto simp: endsWith_def)
qed

lemma findInject_find:
  "findInject b tbl = map_option snd (find (\<lambda>e. domainMatches b (fst e)) tbl)"
  by (induction tbl) auto

lemma encodeURIComponent_append:
  "encodeURIComponent (a @ b) = encodeURIComponent a @ encodeURIComponent b"
  by (simp add: encodeURIComponent_def)

lemmas str_eval = baseUrlOf_def indexOf_def substring_def substringFrom_def
  deepSearchInjects_def domainMatches_def endsWith_def

lemma resolve_google_path: "resolveInject ''https://www.google.com/x'' = googleInject"
  by (simp add: resolveInject_def str_eval)

lemma resolve_google_bare: "resolveInject ''https://google.com'' = googleInject"
  by (simp add: resolveInject_def str_eval)

lemma resolve_example: "resolveInject ''https://example.org'' = defaultInject"
  by (simp add: resolveInject_def str_eval)

lemma default_example:
  "defaultBuildSearchUrl ''https://example.org'' keyword =
     ''https://www.google.com/search?q=site%3Aexample.org%20'' @ encodeURIComponent keyword"
proof -
  have t: "trim ''https://example.org'' = ''https://example.org''"
    by (simp add: trim_def isWhiteSpace_def)
  have e: "encodeURIComponent ''site:example.org '' = ''site%3Aexample.org%20''"
    by (simp add: encodeURIComponent_def uriUnreserved_def percentEncode_def percentByte_def
        hexDigit_def)
  have "defaultBuildSearchUrl ''https://example.org'' keyword =
     ''https://www.google.com/search?q='' @ encodeURIComponent (''site:example.org '' @ keyword)"
    unfolding defaultBuildSearchUrl_def t
    by (simp add: indexOf_def substring_def substringFrom_def)
  then show ?thesis unfolding encodeURIComponent_append e by simp
qed

subsection \<open>What \<open>indexOf\<close> finds\<close>

lemma indexOf_aux_char:
  "indexOf_aux [c] s k =
     (if c \<in> set s then int (k + length (takeWhile (\<lambda>x. x \<noteq> c) s)) else - 1)"
  by (induction s arbitrary: k) auto

lemma indexOf_aux_none:
  "(\<forall>a b. s \<noteq> a @ ''//'' @ b) \<longleftrightarrow> indexOf_aux ''//'' s k = - 1"
proof (induction s arbitrary: k)
  case Nil
  show ?case by simp
next
  case (Cons c cs)
  show ?case
  proof (cases "take 2 (c # cs) = ''//''")
    case True
    then have "c # cs = [] @ ''//'' @ drop 2 (c # cs)"
      by (metis append_Nil append_take_drop_id)
    then have "\<not> (\<forall>a b. c # cs \<noteq> a @ ''//'' @ b)" by blast
    moreover from True have "indexOf_aux ''//'' (c # cs) k = int k" by simp
    ultimately show ?thesis by simp
  next
    case False
    have r: "indexOf_aux ''//'' (c # cs) k = indexOf_aux ''//'' cs (Suc k)"
      using False by auto
    have q: "(\<forall>a b. c # cs \<noteq> a @ ''//'' @ b) \<longleftrightarrow> (\<forall>a b. cs \<noteq> a @ ''//'' @ b)"
    proof
      assume h: "\<forall>a b. c # cs \<noteq> a @ ''//'' @ b"
      show "\<forall>a b. cs \<noteq> a @ ''//'' @ b"
      proof (intro allI notI)
        fix a b assume "cs = a @ ''//'' @ b"
        then have "c # cs = (c # a) @ ''//'' @ b" by simp
        with h show False by blast
      qed
    next
      assume h: "\<forall>a b. cs \<noteq> a @ ''//'' @ b"
      show "\<forall>a b. c # cs \<noteq> a @ ''//'' @ b"
      proof (intro allI notI)
        fix a b assume e: "c # cs = a @ ''//'' @ b"
        show False
        proof (cases a)
          case Nil
          with e False show False by simp
        next
          case (Cons x a')
          with e have "cs = a' @ ''//'' @ b" by simp
          with h show False by blast
        qed
      qed
    qed
    show ?thesis unfolding r q by (rule Cons.IH)
  qed
qed

lemma indexOf_aux_first:
  "\<forall>a b. pre @ ''/'' \<noteq> a @ ''//'' @ b \<Longrightarrow>
   indexOf_aux ''//'' (pre @ ''//'' @ post) k = int (k + length pre)"
proof (induction pre arbitrary: k)
  case Nil
  show ?case by simp
next
  case (Cons x pre)
  have n: "take 2 (x # pre @ ''//'' @ post) \<noteq> ''//''"
  proof
    assume t: "take 2 (x # pre @ ''//'' @ post) = ''//''"
    show False
    proof (cases pre)
      case Nil
      with t have "(x # pre) @ ''/'' = [] @ ''//'' @ []" by simp
      with Cons.prems show False by blast
    next
      case (Cons y pre')
      with t have "(x # pre) @ ''/'' = [] @ ''//'' @ (pre' @ ''/'')" by simp
      with Cons.prems show False by blast
    qed
  qed
  have "\<forall>a b. pre @ ''/'' \<noteq> a @ ''//'' @ b"
  proof (intro allI notI)
    fix a b assume "pre @ ''/'' = a @ ''//'' @ b"
    then have "(x # pre) @ ''/'' = (x # a) @ ''//'' @ b" by simp
    with Cons.prems show False by blast
  qed
  from Cons.IH [OF this, of "Suc k"] n show ?case by simp
qed

text \<open>Every string either has no \<open>"//"\<close> or has a first one.\<close>

lemma first_double_slash:
  "(\<forall>a b. s \<noteq> a @ ''//'' @ b)
   \<or> (\<exists>pre post. s = pre @ ''//'' @ post \<and> (\<forall>a b. pre @ ''/'' \<noteq> a @ ''//'' @ b))"
proof (induction s)
  case Nil
  show ?case by simp
next
  case (Cons c cs)
  show ?case
  proof (cases "take 2 (c # cs) = ''//''")
    case True
    then have "c # cs = [] @ ''//'' @ drop 2 (c # cs)"
      by (metis append_Nil append_take_drop_id)
    moreover have "\<forall>a b. [] @ ''/'' \<noteq> a @ ''//'' @ b"
    proof (intro allI notI)
      fix a b assume "[] @ ''/'' = a @ ''//'' @ b"
      then have "length ([] @ ''/'') = length (a @ ''//'' @ b)" by (rule arg_cong)
      then show False by simp
    qed
    ultimately show ?thesis by blast
  next
    case False
    from Cons.IH show ?thesis
    proof
      assume h: "\<forall>a b. cs \<noteq> a @ ''//'' @ b"
      have "\<forall>a b. c # cs \<noteq> a @ ''//'' @ b"
      proof (intro allI notI)
        fix a b assume e: "c # cs = a @ ''//'' @ b"
        show False
        proof (cases a)
          case Nil
          with e False show False by simp
        next
          case (Cons x a')
          with e have "cs = a' @ ''//'' @ b" by simp
          with h show False by blast
        qed
      qed
      then show ?thesis ..
    next
      assume "\<exists>pre post. cs = pre @ ''//'' @ post \<and> (\<forall>a b. pre @ ''/'' \<noteq> a @ ''//'' @ b)"
      then obtain pre post where
        e: "cs = pre @ ''//'' @ post" and f: "\<forall>a b. pre @ ''/'' \<noteq> a @ ''//'' @ b" by blast
      have "\<forall>a b. (c # pre) @ ''/'' \<noteq> a @ ''//'' @ b"
      proof (intro allI notI)
        fix a b assume g: "(c # pre) @ ''/'' = a @ ''//'' @ b"
        show False
        proof (cases a)
          case Nil
          with g have "take 2 ((c # pre) @ ''/'') = ''//''" by simp
          moreover have "take 2 ((c # pre) @ ''/'') = take 2 (c # cs)"
            unfolding e by (cases pre) simp_all
          ultimately show False using False by simp
        next
          case (Cons x a')
          with g have "pre @ ''/'' = a' @ ''//'' @ b" by simp
          with f show False by blast
        qed
      qed
      moreover from e have "c # cs = (c # pre) @ ''//'' @ post" by simp
      ultimately show ?thesis by blast
    qed
  qed
qed

subsection \<open>The candidate \<open>baseUrl\<close>\<close>

lemma takeWhile_absent: "c \<notin> set s \<Longrightarrow> takeWhile (\<lambda>x. x \<noteq> c) s = s"
  by (induction s) auto

lemma substring_prefix: "n \<le> length s \<Longrightarrow> substring s 0 (int n) = take n s"
  by (simp add: substring_def)

lemma baseUrlOf_scheme:
  assumes "\<forall>a b. pre @ ''/'' \<noteq> a @ ''//'' @ b"
  shows "baseUrlOf (pre @ ''//'' @ post) = pre @ ''//'' @ takeWhile (\<lambda>c. c \<noteq> CHR ''/'') post"
proof -
  let ?tw = "takeWhile (\<lambda>c. c \<noteq> CHR ''/'') post"
  have i: "indexOf (pre @ ''//'' @ post) ''//'' 0 = int (length pre)"
    using indexOf_aux_first [OF assms, of post 0] by (simp add: indexOf_def)
  have n: "nat (int (length pre) + 2) = length pre + 2" by simp
  have j: "indexOf (pre @ ''//'' @ post) ''/'' (int (length pre) + 2) =
      (if CHR ''/'' \<in> set post then int (length pre + 2 + length ?tw) else - 1)"
    by (simp add: indexOf_def indexOf_aux_char n Let_def del: of_nat_add)
  show ?thesis
  proof (cases "CHR ''/'' \<in> set post")
    case True
    have l: "length ?tw \<le> length post" by (rule length_takeWhile_le)
    have t: "take (length ?tw) post = ?tw" by (rule takeWhile_eq_take [symmetric])
    have "take (length pre + 2 + length ?tw) (pre @ ''//'' @ post) =
        pre @ ''//'' @ take (length ?tw) post" by simp
    with l t have s: "substring (pre @ ''//'' @ post) 0 (int (length pre + 2 + length ?tw)) =
        pre @ ''//'' @ ?tw"
      by (simp only: substring_prefix length_append list.size)
    show ?thesis
      unfolding baseUrlOf_def i j using True s by (simp del: of_nat_add)
  next
    case False
    then show ?thesis unfolding baseUrlOf_def i j by (simp add: takeWhile_absent)
  qed
qed

lemma baseUrlOf_plain:
  assumes "\<forall>a b. url \<noteq> a @ ''//'' @ b"
  shows "baseUrlOf url = take 1 url @ takeWhile (\<lambda>c. c \<noteq> CHR ''/'') (drop 1 url)"
proof -
  let ?tw = "takeWhile (\<lambda>c. c \<noteq> CHR ''/'') (drop 1 url)"
  have i: "indexOf url ''//'' 0 = - 1"
    using assms indexOf_aux_none [of url 0] by (simp add: indexOf_def)
  show ?thesis
  proof (cases url)
    case Nil
    then show ?thesis unfolding baseUrlOf_def i by (simp add: indexOf_def)
  next
    case (Cons c cs)
    let ?t = "takeWhile (\<lambda>c. c \<noteq> CHR ''/'') cs"
    have j: "indexOf url ''/'' 1 =
        (if CHR ''/'' \<in> set cs then int (1 + length ?t) else - 1)"
      unfolding Cons by (simp add: indexOf_def indexOf_aux_char)
    show ?thesis
    proof (cases "CHR ''/'' \<in> set cs")
      case True
      have l: "length ?t \<le> length cs" by (rule length_takeWhile_le)
      have t: "take (length ?t) cs = ?t" by (rule takeWhile_eq_take [symmetric])
      from l have "substring (c # cs) 0 (int (1 + length ?t)) = take (1 + length ?t) (c # cs)"
        by (intro substring_prefix) simp
      with t have s: "substring (c # cs) 0 (int (1 + length ?t)) = c # ?t" by simp
      show ?thesis
        unfolding baseUrlOf_def i using True j s Cons by (simp del: of_nat_add)
    next
      case False
      then show ?thesis unfolding baseUrlOf_def i using j Cons by (simp add: takeWhile_absent)
    qed
  qed
qed

lemma resolve_cases:
  "resolveInject url =
     (let b = baseUrlOf url;
          m = (\<lambda>d. b = d \<or> (\<exists>p. b = p @ ''.'' @ d) \<or> (\<exists>p. b = p @ ''/'' @ d))
      in if m ''bing.com'' then bingInject
         else if m ''duckduckgo.com'' then duckduckgoInject
         else if m ''google.com'' then googleInject
         else defaultInject)"
  unfolding resolveInject_def deepSearchInjects_def Let_def
  by (simp add: domainMatches_def endsWith_iff)

subsection \<open>The claim about resolution\<close>

text \<open>
  C4, as stated, fails. The candidate is not always the URL up to the first path slash:
  \<open>google.com/a//b\<close> up to its first slash is \<open>google.com\<close>, the google host, but the
  code looks for the slash from two characters past the first \<open>"//"\<close> on, finds none, keeps
  the whole URL as the candidate and resolves to the default adapter, whose search URL has
  the \<open>site:\<close> filter. \<open>google.com/a/b\<close> resolves to the google adapter.
\<close>

theorem candidate_past_first_slash:
  "takeWhile (\<lambda>c. c \<noteq> CHR ''/'') ''google.com/a//b'' = ''google.com''
   \<and> baseUrlOf ''google.com/a//b'' = ''google.com/a//b''
   \<and> resolveInject ''google.com/a//b'' = defaultInject
   \<and> buildDeepSearchUrl ''google.com/a//b'' ''ai'' =
       \<lparr>st_filename = ''google.js'', st_url = ''https://www.google.com/search?q=site%3Ab%20ai''\<rparr>
   \<and> baseUrlOf ''google.com/a/b'' = ''google.com''
   \<and> resolveInject ''google.com/a/b'' = googleInject
   \<and> buildDeepSearchUrl ''google.com/a/b'' ''ai'' =
       \<lparr>st_filename = ''google.js'', st_url = ''https://www.google.com/search?q=ai''\<rparr>"
proof -
  have a: "baseUrlOf ''google.com/a//b'' = ''google.com/a//b''" by (simp add: str_eval)
  have b: "resolveInject ''google.com/a//b'' = defaultInject"
    by (simp add: resolveInject_def str_eval)
  have c: "buildDeepSearchUrl ''google.com/a//b'' ''ai'' =
       \<lparr>st_filename = ''google.js'', st_url = ''https://www.google.com/search?q=site%3Ab%20ai''\<rparr>"
    unfolding buildDeepSearchUrl_def b
    by (simp add: defaultInject_def defaultBuildSearchUrl_def trim_def isWhiteSpace_def
        indexOf_def substring_def substringFrom_def encodeURIComponent_def uriUnreserved_def
        percentEncode_def percentByte_def hexDigit_def)
  have d: "baseUrlOf ''google.com/a/b'' = ''google.com''" by (simp add: str_eval)
  have e: "resolveInject ''google.com/a/b'' = googleInject"
    by (simp add: resolveInject_def str_eval)
  have f: "buildDeepSearchUrl ''google.com/a/b'' ''ai'' =
       \<lparr>st_filename = ''google.js'', st_url = ''https://www.google.com/search?q=ai''\<rparr>"
    unfolding buildDeepSearchUrl_def e
    by (simp add: googleInject_def encodeURI_def uriUnreserved_def)
  from a b c d e f show ?thesis by simp
qed

text \<open>
  C4, amended. Resolution is a function of the URL alone. The candidate is the URL up to
  the first slash found from two characters past the URL's first \<open>"//"\<close> on (from the
  URL's second character on when it has no \<open>"//"\<close>), and the whole URL when there is no
  such slash; every URL is of one of the two forms. \<open>buildDeepSearchUrl\<close> returns the
  script and the search URL of the first entry, in the order bing, duckduckgo, google,
  whose host equals the candidate or is the end of the candidate after a \<open>"."\<close> or a
  \<open>"/"\<close>, and those of the default adapter otherwise. \<open>https://www.google.com/x\<close> and
  \<open>https://google.com\<close> both resolve to the google adapter; \<open>https://example.org\<close>
  resolves to the default adapter, whose search URL contains \<open>site%3Aexample.org\<close> for
  every keyword.
\<close>

theorem adapter_resolution:
  "(url = pre @ ''//'' @ post \<and> (\<forall>a b. pre @ ''/'' \<noteq> a @ ''//'' @ b) \<longrightarrow>
      baseUrlOf url = pre @ ''//'' @ takeWhile (\<lambda>c. c \<noteq> CHR ''/'') post)
   \<and> ((\<forall>a b. url \<noteq> a @ ''//'' @ b) \<longrightarrow>
      baseUrlOf url = take 1 url @ takeWhile (\<lambda>c. c \<noteq> CHR ''/'') (drop 1 url))
   \<and> ((\<forall>a b. url \<noteq> a @ ''//'' @ b)
      \<or> (\<exists>pre post. url = pre @ ''//'' @ post \<and> (\<forall>a b. pre @ ''/'' \<noteq> a @ ''//'' @ b)))
   \<and> buildDeepSearchUrl url keyword =
       (let b = baseUrlOf url;
            m = (\<lambda>d. b = d \<or> (\<exists>p. b = p @ ''.'' @ d) \<or> (\<exists>p. b = p @ ''/'' @ d))
        in if m ''bing.com''
           then \<lparr>st_filename = ''bing.js'',
                 st_url = ''https://bing.com/search?q='' @ encodeURI keyword\<rparr>
           else if m ''duckduckgo.com''
           then \<lparr>st_filename = ''duckduckgo.js'',
                 st_url = ''https://duckduckgo.com/?q='' @ encodeURI keyword\<rparr>
           else if m ''google.com''
           then \<lparr>st_filename = ''google.js'',
                 st_url = ''https://www.google.com/search?q='' @ encodeURI keyword\<rparr>
           else \<lparr>st_filename = ''google.js'', st_url = defaultBuildSearchUrl url keyword\<rparr>)
   \<and> buildDeepSearchUrl url keyword =
       \<lparr>st_filename = filename (resolveInject url),
        st_url = buildSearchUrl (resolveInject url) url keyword\<rparr>
   \<and> baseUrlOf ''https://www.google.com/x'' = ''https://www.google.com''
   \<and> baseUrlOf ''https://google.com'' = ''https://google.com''
   \<and> baseUrlOf ''https://example.org'' = ''https://example.org''
   \<and> resolveInject ''https://www.google.com/x'' = googleInject
   \<and> resolveInject ''https://google.com'' = googleInject
   \<and> resolveInject ''https://example.org'' = defaultInject
   \<and> buildDeepSearchUrl ''https://www.google.com/x'' keyword =
       \<lparr>st_filename = ''google.js'',
        st_url = ''https://www.google.com/search?q='' @ encodeURI keyword\<rparr>
   \<and> buildDeepSearchUrl ''https://google.com'' keyword =
       \<lparr>st_filename = ''google.js'',
        st_url = ''https://www.google.com/search?q='' @ encodeURI keyword\<rparr>
   \<and> buildDeepSearchUrl ''https://example.org'' keyword =
       \<lparr>st_filename = ''google.js'',
        st_url = ''https://www.google.com/search?q='' @ ''site%3Aexample.org'' @ ''%20'' @
          encodeURIComponent keyword\<rparr>"
proof -
  have a: "url = pre @ ''//'' @ post \<and> (\<forall>a b. pre @ ''/'' \<noteq> a @ ''//'' @ b) \<longrightarrow>
      baseUrlOf url = pre @ ''//'' @ takeWhile (\<lambda>c. c \<noteq> CHR ''/'') post"
    using baseUrlOf_scheme by blast
  have b: "(\<forall>a b. url \<noteq> a @ ''//'' @ b) \<longrightarrow>
      baseUrlOf url = take 1 url @ takeWhile (\<lambda>c. c \<noteq> CHR ''/'') (drop 1 url)"
    using baseUrlOf_plain by blast
  note c = first_double_slash [of url]
  have d: "buildDeepSearchUrl url keyword =
       (let b = baseUrlOf url;
            m = (\<lambda>d. b = d \<or> (\<exists>p. b = p @ ''.'' @ d) \<or> (\<exists>p. b = p @ ''/'' @ d))
        in if m ''bing.com''
           then \<lparr>st_filename = ''bing.js'',
                 st_url = ''https://bing.com/search?q='' @ encodeURI keyword\<rparr>
           else if m ''duckduckgo.com''
           then \<lparr>st_filename = ''duckduckgo.js'',
                 st_url = ''https://duckduckgo.com/?q='' @ encodeURI keyword\<rparr>
           else if m ''google.com''
           then \<lparr>st_filename = ''google.js'',
                 st_url = ''https://www.google.com/search?q='' @ encodeURI keyword\<rparr>
           else \<lparr>st_filename = ''google.js'', st_url = defaultBuildSearchUrl url keyword\<rparr>)"
    unfolding buildDeepSearchUrl_def resolve_cases Let_def
    by (simp add: bingInject_def duckduckgoInject_def googleInject_def defaultInject_def)
  have e: "buildDeepSearchUrl url keyword =
       \<lparr>st_filename = filename (resolveInject url),
        st_url = buildSearchUrl (resolveInject url) url keyword\<rparr>"
    by (simp add: buildDeepSearchUrl_def Let_def)
  have f: "baseUrlOf ''https://www.google.com/x'' = ''https://www.google.com''"
    "baseUrlOf ''https://google.com'' = ''https://google.com''"
    "baseUrlOf ''https://example.org'' = ''https://example.org''"
    by (simp_all add: str_eval)
  have g: "buildDeepSearchUrl ''https://www.google.com/x'' keyword =
       \<lparr>st_filename = ''google.js'',
        st_url = ''https://www.google.com/search?q='' @ encodeURI keyword\<rparr>"
    "buildDeepSearchUrl ''https://google.com'' keyword =
       \<lparr>st_filename = ''google.js'',
        st_url = ''https://www.google.com/search?q='' @ encodeURI keyword\<rparr>"
    unfolding buildDeepSearchUrl_def resolve_google_path resolve_google_bare
    by (simp_all add: googleInject_def)
  have h: "buildDeepSearchUrl ''https://example.org'' keyword =
       \<lparr>st_filename = ''google.js'',
        st_url = ''https://www.google.com/search?q='' @ ''site%3Aexample.org'' @ ''%20'' @
          encodeURIComponent keyword\<rparr>"
    unfolding buildDeepSearchUrl_def resolve_example
    by (simp add: defaultInject_def default_example)
  show ?thesis
    by (intro conjI a b c d e f g h resolve_google_path resolve_google_bare resolve_example)
qed

theorem adapter_resolution_witness:
  "(\<forall>a b. ''https:/'' \<noteq> a @ ''//'' @ b)
   \<and> baseUrlOf ''https://www.google.com/x'' = ''https://www.google.com''
   \<and> (\<forall>a b. ''google.com/a/b'' \<noteq> a @ ''//'' @ b)
   \<and> baseUrlOf ''google.com/a/b'' = ''google.com''"
proof -
  have h1: "\<forall>a b. ''https:/'' \<noteq> a @ ''//'' @ b"
    unfolding indexOf_aux_none [of _ 0] by simp
  have h2: "\<forall>a b. ''google.com/a/b'' \<noteq> a @ ''//'' @ b"
    unfolding indexOf_aux_none [of _ 0] by simp
  from h1 adapter_resolution [where url = "''https://www.google.com/x''" and pre = "''https:''"
      and post = "''www.google.com/x''"]
  have "baseUrlOf ''https://www.google.com/x'' = ''https://www.google.com''" by simp
  moreover from h2 adapter_resolution [where url = "''google.com/a/b''"]
  have "baseUrlOf ''google.com/a/b'' = ''google.com''" by simp
  ultimately show ?thesis using h1 h2 by simp
qed

section \<open>Listener ids\<close>

declare digits.simps [simp del]

lemma digit_of_char: "d < 10 \<Longrightarrow> of_char (char_of (48 + d) :: char) = (48 + d :: nat)"
  for d :: nat
  by simp

lemma digit_inj:
  fixes a b :: nat
  assumes "a < 10" and "b < 10" and "(char_of (48 + a) :: char) = char_of (48 + b)"
  shows "a = b"
proof -
  from assms(3) have "(of_char (char_of (48 + a) :: char) :: nat) = of_char (char_of (48 + b) :: char)"
    by simp
  with assms(1,2) show ?thesis by (simp only: digit_of_char)
qed

lemma digit_not_underscore: "d < 10 \<Longrightarrow> (char_of (48 + d) :: char) \<noteq> CHR ''_''"
  for d :: nat
proof
  assume d: "d < 10" and "(char_of (48 + d) :: char) = CHR ''_''"
  then have "(of_char (char_of (48 + d) :: char) :: nat) = of_char CHR ''_''" by simp
  with d show False by (simp only: digit_of_char) simp
qed

lemma digits_nonempty: "digits n \<noteq> []"
  by (simp add: digits.simps [of n])

lemma digits_no_underscore: "CHR ''_'' \<notin> set (digits n)"
proof (induction n rule: digits.induct)
  case (1 n)
  show ?case
  proof (cases "n < 10")
    case True
    then show ?thesis
      using digit_not_underscore [of n] by (auto simp: digits.simps [of n])
  next
    case False
    with "1.IH" digit_not_underscore [of "n mod 10"] show ?thesis
      by (auto simp: digits.simps [of n])
  qed
qed

lemma digits_inj: "digits m = digits n \<Longrightarrow> m = n"
proof (induction m arbitrary: n rule: digits.induct)
  case (1 m)
  show ?case
  proof (cases "m < 10")
    case True
    show ?thesis
    proof (cases "n < 10")
      case n: True
      from "1.prems" True n show ?thesis
        by (simp add: digits.simps [of m] digits.simps [of n] digit_inj)
    next
      case False
      with "1.prems" True digits_nonempty [of "n div 10"] show ?thesis
        by (simp add: digits.simps [of m] digits.simps [of n])
    qed
  next
    case False
    show ?thesis
    proof (cases "n < 10")
      case True
      with "1.prems" False digits_nonempty [of "m div 10"] show ?thesis
        by (simp add: digits.simps [of m] digits.simps [of n])
    next
      case n: False
      from "1.prems" False n have e: "digits (m div 10) = digits (n div 10)"
        and c: "(char_of (48 + m mod 10) :: char) = char_of (48 + n mod 10)"
        by (simp_all add: digits.simps [of m] digits.simps [of n])
      from "1.IH" [OF False e] have "m div 10 = n div 10" .
      moreover from c have "m mod 10 = n mod 10" by (intro digit_inj) simp_all
      ultimately show ?thesis by (metis div_mult_mod_eq)
    qed
  qed
qed

lemma split_at_mark:
  "xs @ c # ys = xs' @ c # ys' \<Longrightarrow> c \<notin> set xs \<Longrightarrow> c \<notin> set xs' \<Longrightarrow> xs = xs' \<and> ys = ys'"
proof (induction xs arbitrary: xs')
  case Nil
  then show ?case by (cases xs') auto
next
  case (Cons x xs)
  then show ?case by (cases xs') auto
qed

text \<open>Within a task, the ids of two listeners are the same string only for the same listener.\<close>

lemma eventIdStr_inj: "eventIdStr taskId e = eventIdStr taskId e' \<Longrightarrow> e = e'"
proof (cases e; cases e')
  fix i i' assume "e = Discovery i" "e' = Discovery i'" "eventIdStr taskId e = eventIdStr taskId e'"
  then show ?thesis by (simp add: digits_inj)
next
  fix i a b assume "e = Discovery i" "e' = Extraction a b"
    "eventIdStr taskId e = eventIdStr taskId e'"
  then have "digits i = digits a @ CHR ''_'' # digits b" by simp
  with digits_no_underscore [of i] show ?thesis by simp
next
  fix i a b assume "e = Extraction a b" "e' = Discovery i"
    "eventIdStr taskId e = eventIdStr taskId e'"
  then have "digits i = digits a @ CHR ''_'' # digits b" by simp
  with digits_no_underscore [of i] show ?thesis by simp
next
  fix a b a' b' assume e: "e = Extraction a b" "e' = Extraction a' b'"
    and "eventIdStr taskId e = eventIdStr taskId e'"
  then have "digits a @ CHR ''_'' # digits b = digits a' @ CHR ''_'' # digits b'" by simp
  from split_at_mark [OF this digits_no_underscore digits_no_underscore]
  show ?thesis by (simp add: e digits_inj)
qed

section \<open>Frame conditions\<close>

declare nextLink.simps [simp del]

lemma delete_keys_set [simp]: "fst ` set (AList.delete k al) = fst ` set al - {k}"
  by (induction al) auto

lemmas prim_defs = emit_def removeListener_def countDown1_def countDown2_def
  latchCountDown1_def latchCountDown2_def tabsRemove_def suspend_def addListener_def

subsection \<open>frames of the driver chain\<close>

lemma finish_frame [simp]:
  "detailLinkGroups (finish s) = detailLinkGroups s"
  "listeners (finish s) = listeners s"
  "inflight (finish s) = inflight s"
  "detailsMaxNum (finish s) = detailsMaxNum s"
  "latch1 (finish s) = latch1 s"
  "latch2 (finish s) = latch2 s"
  "si_total (finish s) = si_total s"
  "si_running (finish s) = si_running s"
  "si_succeed (finish s) = si_succeed s"
  "si_failed (finish s) = si_failed s"
  "si_failedLinks (finish s) = si_failedLinks s"
  "pc (finish s) = Returned (response_of s)"
  by (simp_all add: finish_def)

lemma enterP2Await_frame [simp]:
  "detailLinkGroups (enterP2Await s) = detailLinkGroups s"
  "listeners (enterP2Await s) = listeners s"
  "inflight (enterP2Await s) = inflight s"
  "detailsMaxNum (enterP2Await s) = detailsMaxNum s"
  "latch1 (enterP2Await s) = latch1 s"
  "latch2 (enterP2Await s) = latch2 s"
  "si_total (enterP2Await s) = si_total s"
  "si_running (enterP2Await s) = si_running s"
  "si_succeed (enterP2Await s) = si_succeed s"
  "si_failed (enterP2Await s) = si_failed s"
  "si_failedLinks (enterP2Await s) = si_failedLinks s"
  by (simp_all add: enterP2Await_def)

lemma advanceP2_frame [simp]:
  "detailLinkGroups (advanceP2 s i j) = detailLinkGroups s"
  "listeners (advanceP2 s i j) = listeners s"
  "inflight (advanceP2 s i j) = inflight s"
  "detailsMaxNum (advanceP2 s i j) = detailsMaxNum s"
  "latch1 (advanceP2 s i j) = latch1 s"
  "latch2 (advanceP2 s i j) = latch2 s"
  "si_total (advanceP2 s i j) = si_total s"
  "si_running (advanceP2 s i j) = si_running s"
  "si_succeed (advanceP2 s i j) = si_succeed s"
  "si_failed (advanceP2 s i j) = si_failed s"
  "si_failedLinks (advanceP2 s i j) = si_failedLinks s"
  by (simp_all add: advanceP2_def split: option.splits)

lemma startPhase2_frame [simp]:
  "detailLinkGroups (startPhase2 s) = detailLinkGroups s"
  "listeners (startPhase2 s) = listeners s"
  "inflight (startPhase2 s) = inflight s"
  "detailsMaxNum (startPhase2 s) = detailsMaxNum s"
  "latch1 (startPhase2 s) = latch1 s"
  by (simp_all add: startPhase2_def Let_def)

lemma enterP1Await_frame [simp]:
  "detailLinkGroups (enterP1Await s) = detailLinkGroups s"
  "listeners (enterP1Await s) = listeners s"
  "inflight (enterP1Await s) = inflight s"
  "detailsMaxNum (enterP1Await s) = detailsMaxNum s"
  "latch1 (enterP1Await s) = latch1 s"
  by (simp_all add: enterP1Await_def)

lemma advanceP1_frame [simp]:
  "detailLinkGroups (advanceP1 s i) = detailLinkGroups s"
  "listeners (advanceP1 s i) = listeners s"
  "inflight (advanceP1 s i) = inflight s"
  "detailsMaxNum (advanceP1 s i) = detailsMaxNum s"
  "latch1 (advanceP1 s i) = latch1 s"
  by (simp_all add: advanceP1_def)

lemma startPhase1_frame [simp]:
  "detailLinkGroups (startPhase1 s) = []"
  "listeners (startPhase1 s) = listeners s"
  "inflight (startPhase1 s) = inflight s"
  "detailsMaxNum (startPhase1 s) = detailsMaxNum s"
  by (simp_all add: startPhase1_def)

lemma wake_frame [simp]:
  "detailLinkGroups (wake s) = detailLinkGroups s"
  "listeners (wake s) = listeners s"
  "inflight (wake s) = inflight s"
  "detailsMaxNum (wake s) = detailsMaxNum s"
  "latch1 (wake s) = latch1 s"
  by (simp_all add: wake_def split: pc.splits)

lemma response_of_frame [simp]:
  "response_of (finish s) = response_of s"
  "response_of (enterP2Await s) = response_of s"
  "response_of (advanceP2 s i j) = response_of s"
  "response_of (startPhase2 s) = response_of s"
  "response_of (enterP1Await s) = response_of s"
  "response_of (advanceP1 s i) = response_of s"
  "response_of (wake s) = response_of s"
  by (simp_all add: response_of_def)

subsection \<open>where the body is after a step\<close>

lemma response_of_groups:
  "detailLinkGroups s' = detailLinkGroups s \<Longrightarrow> response_of s' = response_of s"
  unfolding response_of_def by (erule arg_cong)

lemma finish_pc: "resumed_pc (finish s)"
  by (simp add: resumed_pc_def)

lemma enterP2Await_pc: "resumed_pc (enterP2Await s)"
proof (cases "latch2 s = 0")
  case True
  then show ?thesis using finish_pc [of s] by (simp add: enterP2Await_def)
next
  case False
  then show ?thesis by (simp add: enterP2Await_def resumed_pc_def)
qed

lemma advanceP2_pc: "resumed_pc (advanceP2 s i j)"
proof (cases "nextLink (detailLinkGroups s) i j")
  case None
  then show ?thesis using enterP2Await_pc [of s] by (simp add: advanceP2_def)
next
  case (Some p)
  then show ?thesis by (cases p) (simp add: advanceP2_def resumed_pc_def)
qed

lemma startPhase2_pc: "resumed_pc (startPhase2 s)"
  unfolding startPhase2_def Let_def by (rule advanceP2_pc)




lemma resumed_settled: "resumed_pc s' \<Longrightarrow> settled_pc s s'"
  by (simp add: resumed_pc_def settled_pc_def)

lemma settled_pc_same: "pc s' = pc s \<Longrightarrow> settled_pc s s'"
  by (simp add: settled_pc_def)

lemma wake_pc: "settled_pc s (wake s)"
proof (cases "pc s")
  case P1Await
  then show ?thesis
    using startPhase2_pc [of s]
    by (cases "latch1 s = 0") (simp_all add: wake_def resumed_settled settled_pc_same)
next
  case P2Await
  then show ?thesis
    using finish_pc [of s]
    by (cases "latch2 s = 0") (simp_all add: wake_def resumed_settled settled_pc_same)
qed (simp_all add: wake_def settled_pc_same)

lemma settled_pc_trans:
  "settled_pc s s1 \<Longrightarrow> settled_pc s1 s2 \<Longrightarrow> detailLinkGroups s2 = detailLinkGroups s1 \<Longrightarrow>
   settled_pc s s2"
  unfolding settled_pc_def by (metis response_of_groups)

subsection \<open>handlers\<close>

lemmas handler_defs = discoveryListener_def extractionListener_def discoveryResume_def
  extractionResume_def writeLink_def

lemma deliver_frame [simp]:
  "pc (deliver t st e s) = pc s"
  "detailLinkGroups (deliver t st e s) = detailLinkGroups s"
  "detailsMaxNum (deliver t st e s) = detailsMaxNum s"
proof -
  obtain eid h where e: "e = (eid, h)" by (cases e)
  show "pc (deliver t st e s) = pc s"
    unfolding e by (cases eid; cases st) (simp_all add: handler_defs prim_defs Let_def)
  show "detailLinkGroups (deliver t st e s) = detailLinkGroups s"
    unfolding e by (cases eid; cases st) (simp_all add: handler_defs prim_defs Let_def)
  show "detailsMaxNum (deliver t st e s) = detailsMaxNum s"
    unfolding e by (cases eid; cases st) (simp_all add: handler_defs prim_defs Let_def)
qed

lemma resume_frame [simp]:
  "pc (resume eid h oc s) = pc s"
  "detailsMaxNum (resume eid h oc s) = detailsMaxNum s"
  "inflight (resume eid h oc s) = inflight s"
proof -
  show "pc (resume eid h oc s) = pc s"
    by (cases eid) (simp_all add: handler_defs prim_defs Let_def split: outcome.splits option.splits)
  show "detailsMaxNum (resume eid h oc s) = detailsMaxNum s"
    by (cases eid) (simp_all add: handler_defs prim_defs Let_def split: outcome.splits option.splits)
  show "inflight (resume eid h oc s) = inflight s"
    by (cases eid) (simp_all add: handler_defs prim_defs Let_def split: outcome.splits option.splits)
qed

lemma publish_induct:
  assumes "P s" and "\<And>s' e. P s' \<Longrightarrow> P (wake (deliver t st e s'))"
  shows "P (publish t st s)"
proof -
  have "P (foldl (\<lambda>s' e. wake (deliver t st e s')) s0 es)" if "P s0" for s0 es
    using that by (induction es arbitrary: s0) (simp_all add: assms(2))
  then show ?thesis unfolding publish_def using assms(1) by blast
qed

lemma settled_pc_left: "pc s = pc s0 \<Longrightarrow> settled_pc s s' \<Longrightarrow> settled_pc s0 s'"
  by (simp add: settled_pc_def)

lemma publish_groups [simp]: "detailLinkGroups (publish t st s) = detailLinkGroups s"
  by (rule publish_induct [where P = "\<lambda>x. detailLinkGroups x = detailLinkGroups s"]) simp_all

lemma publish_maxNum [simp]: "detailsMaxNum (publish t st s) = detailsMaxNum s"
  by (rule publish_induct [where P = "\<lambda>x. detailsMaxNum x = detailsMaxNum s"]) simp_all

lemma publish_pc: "settled_pc s (publish t st s)"
proof (rule publish_induct [where P = "\<lambda>x. settled_pc s x \<and> detailLinkGroups x = detailLinkGroups s",
      THEN conjunct1])
  show "settled_pc s s \<and> detailLinkGroups s = detailLinkGroups s"
    by (simp add: settled_pc_same)
next
  fix s' e
  assume a: "settled_pc s s' \<and> detailLinkGroups s' = detailLinkGroups s"
  have b: "settled_pc s' (wake (deliver t st e s'))"
    by (rule settled_pc_left [OF _ wake_pc]) simp
  have c: "detailLinkGroups (wake (deliver t st e s')) = detailLinkGroups s'"
    by simp
  from settled_pc_trans [OF conjunct1 [OF a] b c] a c
  show "settled_pc s (wake (deliver t st e s')) \<and>
      detailLinkGroups (wake (deliver t st e s')) = detailLinkGroups s"
    by simp
qed

lemma settle_pc: "settled_pc s (settle eid oc s)"
proof (cases "map_of (inflight s) eid")
  case None
  then show ?thesis by (simp add: settle_def settled_pc_same)
next
  case (Some h)
  have "settled_pc s (wake (resume eid h oc (s\<lparr>inflight := AList.delete eid (inflight s)\<rparr>)))"
    by (rule settled_pc_left [OF _ wake_pc]) simp
  with Some show ?thesis by (simp add: settle_def)
qed

lemma settle_maxNum [simp]: "detailsMaxNum (settle eid oc s) = detailsMaxNum s"
  by (simp add: settle_def split: option.splits)


lemma wake_returned [simp]: "pc s = Returned r \<Longrightarrow> wake s = s"
  by (simp add: wake_def)

lemma wake_failed [simp]: "pc s = Failed e \<Longrightarrow> wake s = s"
  by (simp add: wake_def)


lemma run_snoc [simp]: "run s (acts @ [a]) = step (run s acts) a"
  by (simp add: run_def)

lemma run_Nil [simp]: "run s [] = s"
  by (simp add: run_def)


section \<open>Steps and runs\<close>

lemma step_maxNum [simp]: "detailsMaxNum (step s a) = detailsMaxNum s"
  by (cases a; cases "pc s")
    (simp_all add: openDiscoveryTab_def openExtractionTab_def Let_def prim_defs)

lemma run_maxNum [simp]: "detailsMaxNum (run s acts) = detailsMaxNum s"
  by (induction acts rule: rev_induct) simp_all








section \<open>The tool's entry point\<close>

text \<open>
  C2, at the failing input: the argument has a \<open>query\<close>, discovery yields one link, and
  opening the tab of that link fails. \<open>doPageContent\<close> has no \<open>try\<close> around
  \<open>chrome.tabs.create\<close>, so the task is rejected with that error.
\<close>

theorem execute_rejected_by_extraction_tab:
  "validParams (JObj [(''query'', JStr ''ai'')]) \<and>
   execute (JObj [(''query'', JStr ''ai'')])
     [WindowCreated 7, TabCreated 1, TabUpdated 1 Complete,
      Settled (Discovery 0)
        (Reply (Some \<lparr>r_links = Some [\<lparr>link_title = ''t'', link_url = ''u'',
                                       link_content = None, link_page_title = None\<rparr>],
                      r_title = None, r_content = None\<rparr>)),
      TabCreateFailed] = Failed TabCreateError"
  by code_simp






text \<open>
  C10. A falsy \<open>maxResults\<close> (absent, \<open>undefined\<close>, \<open>0\<close>, or any other falsy value)
  becomes 5, so the limit handed to \<open>deepSearch\<close> is never 0, and stays what it is
  throughout the task; a falsy \<open>url\<close> becomes \<open>https://google.com\<close>.
\<close>

theorem execute_defaults:
  "(\<not> truthy (getProp params ''maxResults'') \<longrightarrow> maxResultsArg params = JNum 5)
   \<and> (map_of ps ''maxResults'' = None \<longrightarrow> maxResultsArg (JObj ps) = JNum 5)
   \<and> (map_of ps ''maxResults'' = Some JUndefined \<longrightarrow> maxResultsArg (JObj ps) = JNum 5)
   \<and> (map_of ps ''maxResults'' = Some (JNum 0) \<longrightarrow> maxResultsArg (JObj ps) = JNum 5)
   \<and> maxResultsArg params \<noteq> JNum 0
   \<and> (\<not> truthy (getProp params ''url'') \<longrightarrow> urlArg params = JStr ''https://google.com'')
   \<and> (validParams params \<and> pc (execute_init params) \<noteq> Failed SchemaViolation \<longrightarrow>
        (\<exists>u q n. urlArg params = JStr u \<and> getProp params ''query'' = JStr q \<and>
           maxResultsArg params = JNum n \<and> n \<noteq> 0 \<and>
           execute_init params = deepSearch_init [(u, q)] n None \<and>
           detailsMaxNum (run (execute_init params) acts) = n))"
proof -
  have a: "\<not> truthy (getProp params ''maxResults'') \<longrightarrow> maxResultsArg params = JNum 5"
    by (simp add: maxResultsArg_def)
  have b: "map_of ps ''maxResults'' = None \<longrightarrow> maxResultsArg (JObj ps) = JNum 5"
    by (simp add: maxResultsArg_def)
  have c: "map_of ps ''maxResults'' = Some JUndefined \<longrightarrow> maxResultsArg (JObj ps) = JNum 5"
    by (simp add: maxResultsArg_def)
  have d: "map_of ps ''maxResults'' = Some (JNum 0) \<longrightarrow> maxResultsArg (JObj ps) = JNum 5"
    by (simp add: maxResultsArg_def)
  have e: "maxResultsArg params \<noteq> JNum 0"
    by (auto simp: maxResultsArg_def Let_def)
  have f: "\<not> truthy (getProp params ''url'') \<longrightarrow> urlArg params = JStr ''https://google.com''"
    by (simp add: urlArg_def)
  have g: "validParams params \<and> pc (execute_init params) \<noteq> Failed SchemaViolation \<longrightarrow>
        (\<exists>u q n. urlArg params = JStr u \<and> getProp params ''query'' = JStr q \<and>
           maxResultsArg params = JNum n \<and> n \<noteq> 0 \<and>
           execute_init params = deepSearch_init [(u, q)] n None \<and>
           detailsMaxNum (run (execute_init params) acts) = n)"
  proof
    assume h: "validParams params \<and> pc (execute_init params) \<noteq> Failed SchemaViolation"
    then obtain u q n where uqn: "urlArg params = JStr u" "getProp params ''query'' = JStr q"
        "maxResultsArg params = JNum n"
      by (auto simp: execute_init_def blank_def split: jsval.splits)
    with h have i: "execute_init params = deepSearch_init [(u, q)] n None"
      by (simp add: execute_init_def)
    have "detailsMaxNum (deepSearch_init [(u, q)] n None) = n"
      by (simp add: deepSearch_init_def)
    with uqn i e show "\<exists>u q n. urlArg params = JStr u \<and> getProp params ''query'' = JStr q \<and>
           maxResultsArg params = JNum n \<and> n \<noteq> 0 \<and>
           execute_init params = deepSearch_init [(u, q)] n None \<and>
           detailsMaxNum (run (execute_init params) acts) = n"
      by auto
  qed
  from a b c d e f g show ?thesis by blast
qed

theorem execute_defaults_witness:
  "maxResultsArg (JObj [(''query'', JStr ''ai''), (''maxResults'', JNum 0), (''url'', JStr '''')])
     = JNum 5 \<and>
   urlArg (JObj [(''query'', JStr ''ai''), (''maxResults'', JNum 0), (''url'', JStr '''')])
     = JStr ''https://google.com'' \<and>
   detailsMaxNum
     (run (execute_init
            (JObj [(''query'', JStr ''ai''), (''maxResults'', JNum 0), (''url'', JStr '''')]))
        [WindowCreated 7, TabCreated 1]) = 5"
proof -
  have v: "validParams (JObj [(''query'', JStr ''ai''), (''maxResults'', JNum 0), (''url'', JStr '''')])"
    by simp
  have p: "pc (execute_init
      (JObj [(''query'', JStr ''ai''), (''maxResults'', JNum 0), (''url'', JStr '''')])) = AwaitWindow"
    by code_simp
  have m: "getProp (JObj [(''query'', JStr ''ai''), (''maxResults'', JNum 0), (''url'', JStr '''')])
      ''maxResults'' = JNum 0" by simp
  have u: "getProp (JObj [(''query'', JStr ''ai''), (''maxResults'', JNum 0), (''url'', JStr '''')])
      ''url'' = JStr ''''" by simp
  show ?thesis
    using execute_defaults [of "JObj [(''query'', JStr ''ai''), (''maxResults'', JNum 0), (''url'', JStr '''')]"
        "[]" "[WindowCreated 7, TabCreated 1]"] v p m u
    by auto
qed

section \<open>Each listener ends once\<close>

lemma finish_tally [simp]: "tally eid (finish s) = tally eid s"
  by (simp add: finish_def tally_def occ_def split: option.splits)

lemma enterP2Await_tally [simp]: "tally eid (enterP2Await s) = tally eid s"
  by (simp add: enterP2Await_def) (simp add: tally_def occ_def)

lemma advanceP2_tally [simp]: "tally eid (advanceP2 s i j) = tally eid s"
  by (simp add: advanceP2_def split: option.splits) (simp add: tally_def occ_def)

lemma startPhase2_tally [simp]: "tally eid (startPhase2 s) = tally eid s"
  proof -
  have "tally eid (s\<lparr>si_total := a, si_running := b, si_succeed := c, si_failed := d,
      si_failedLinks := e, latch2 := f\<rparr>) = tally eid s" for a b c d e f
    by (simp add: tally_def occ_def)
  then show ?thesis by (simp add: startPhase2_def Let_def)
qed

lemma enterP1Await_tally [simp]: "tally eid (enterP1Await s) = tally eid s"
  by (simp add: enterP1Await_def) (simp add: tally_def occ_def)

lemma advanceP1_tally [simp]: "tally eid (advanceP1 s i) = tally eid s"
  by (simp add: advanceP1_def) (simp add: tally_def occ_def)

lemma startPhase1_tally [simp]: "tally eid (startPhase1 s) = tally eid s"
  proof -
  have "tally eid (s\<lparr>detailLinkGroups := a, latch1 := b\<rparr>) = tally eid s" for a b
    by (simp add: tally_def occ_def)
  then show ?thesis by (simp add: startPhase1_def)
qed

lemma wake_tally [simp]: "tally eid (wake s) = tally eid s"
  by (simp add: wake_def split: pc.splits)

subsection \<open>The loops only go forward\<close>

lemma nextLink_forward:
  "nextLink gs i j = Some (i', j') \<Longrightarrow> (i' = i \<and> j' = j) \<or> (i < i' \<and> j' = 0)"
proof (induction gs i j rule: nextLink.induct)
  case (1 gs i j)
  show ?case
  proof (cases "i < length gs \<and> \<not> j < length (g_links (gs ! i))")
    case True
    with "1.prems" have "nextLink gs (Suc i) 0 = Some (i', j')"
      by (simp add: nextLink.simps [of gs i j])
    with "1.IH" True show ?thesis by auto
  next
    case False
    with "1.prems" show ?thesis
      by (auto simp: nextLink.simps [of gs i j] split: if_splits)
  qed
qed

lemma future_finish [simp]: "\<not> future eid (pc (finish s))"
  by simp

lemma future_enterP2Await [simp]: "\<not> future eid (pc (enterP2Await s))"
  by (simp add: enterP2Await_def)

lemma future_advanceP2:
  "future eid (pc (advanceP2 s i j)) \<Longrightarrow> future eid (P2Create i j)"
proof (cases "nextLink (detailLinkGroups s) i j")
  case None
  then show "future eid (pc (advanceP2 s i j)) \<Longrightarrow> ?thesis" by (simp add: advanceP2_def)
next
  case (Some p)
  obtain i' j' where p: "p = (i', j')" by (cases p)
  assume "future eid (pc (advanceP2 s i j))"
  with Some p have f: "future eid (P2Create i' j')" by (simp add: advanceP2_def)
  from nextLink_forward [OF Some [unfolded p]] f show ?thesis
    by (cases eid) auto
qed

lemma future_startPhase2: "future eid (pc (startPhase2 s)) \<Longrightarrow> \<not> isDiscovery eid"
  unfolding startPhase2_def Let_def by (cases eid) (auto dest: future_advanceP2)

lemma future_enterP1Await: "future eid (pc (enterP1Await s)) \<Longrightarrow> \<not> isDiscovery eid"
  by (cases eid) (auto simp: enterP1Await_def dest: future_startPhase2 split: if_splits)

lemma future_advanceP1: "future eid (pc (advanceP1 s i)) \<Longrightarrow> future eid (P1Create i)"
  by (cases eid) (auto simp: advanceP1_def dest: future_enterP1Await split: if_splits)

lemma future_wake: "future eid (pc (wake s)) \<Longrightarrow> future eid (pc s)"
  by (cases eid; cases "pc s") (auto simp: wake_def dest: future_startPhase2 split: if_splits)

subsection \<open>What a handler does to the listeners and the trace\<close>

lemma update_keys_set [simp]: "fst ` set (AList.update k v al) = insert k (fst ` set al)"
  by (induction al) auto

lemma deliver_cases:
  "deliver t st (eid, h) s = s
   \<or> (listeners (deliver t st (eid, h) s) = AList.delete eid (listeners s) \<and>
      inflight (deliver t st (eid, h) s) = AList.update eid h (inflight s) \<and>
      trace (deliver t st (eid, h) s) =
        trace s @ [BranchComplete eid] @
          (if eid \<in> fst ` set (listeners s) then [Unsubscribed eid] else []))
   \<or> (listeners (deliver t st (eid, h) s) = AList.delete eid (listeners s) \<and>
      inflight (deliver t st (eid, h) s) = inflight s \<and>
      trace (deliver t st (eid, h) s) =
        trace s @ [BranchUnloaded eid, CountDown eid, TabRemove eid (s_tabId h)] @
          (if eid \<in> fst ` set (listeners s) then [Unsubscribed eid] else []))"
  by (cases eid; cases st) (simp_all add: handler_defs prim_defs Let_def)

lemma resume_cases:
  "listeners (resume eid h oc s) = AList.delete eid (listeners s) \<and>
   trace (resume eid h oc s) =
     trace s @ [CountDown eid, TabRemove eid (s_tabId h)] @
       (if eid \<in> fst ` set (listeners s) then [Unsubscribed eid] else [])
   \<or> listeners (resume eid h oc s) = listeners s \<and>
     trace (resume eid h oc s) = trace s @ [CountDown eid, TabRemove eid (s_tabId h)]
   \<or> listeners (resume eid h oc s) = listeners s \<and> isDiscovery eid \<and>
     trace (resume eid h oc s) = trace s @ [HandlerRejected eid]"
  by (cases eid; cases oc)
    (simp_all add: handler_defs prim_defs Let_def split: option.splits)

lemma sessionOk_other:
  assumes "sessionOk eid s" and "eid \<noteq> eid0"
    and "fst ` set (listeners s') - {eid0} = fst ` set (listeners s) - {eid0}"
    and "fst ` set (inflight s') - {eid0} = fst ` set (inflight s) - {eid0}"
    and "trace s' = trace s @ xs" and "\<forall>x \<in> set xs. \<forall>k. kindOf x \<noteq> Some (eid, k)"
    and "future eid (pc s') \<longrightarrow> future eid (pc s)"
  shows "sessionOk eid s'"
proof -
  have t: "tally eid s' = tally eid s"
    using assms(5,6) by (simp add: tally_def occ_def)
  have l: "eid \<in> fst ` set (listeners s') \<longleftrightarrow> eid \<in> fst ` set (listeners s)"
    using assms(2,3) by blast
  have i: "eid \<in> fst ` set (inflight s') \<longleftrightarrow> eid \<in> fst ` set (inflight s)"
    using assms(2,4) by blast
  from assms(1,7) show ?thesis unfolding sessionOk_def t l i by blast
qed

lemma deliver_sessionOk:
  assumes "sessionOk eid s" and "sessionOk eid0 s" and "eid0 \<in> fst ` set (listeners s)"
  shows "sessionOk eid (deliver t st (eid0, h) s)"
proof (cases "eid = eid0")
  case False
  from deliver_cases [of t st eid0 h s] show ?thesis
  proof (elim disjE conjE)
    assume "deliver t st (eid0, h) s = s"
    with assms(1) show ?thesis by simp
  next
    assume "listeners (deliver t st (eid0, h) s) = AList.delete eid0 (listeners s)"
      "inflight (deliver t st (eid0, h) s) = AList.update eid0 h (inflight s)"
      "trace (deliver t st (eid0, h) s) =
        trace s @ [BranchComplete eid0] @
          (if eid0 \<in> fst ` set (listeners s) then [Unsubscribed eid0] else [])"
    with False show ?thesis
      by (intro sessionOk_other [OF assms(1), where ?eid0.0 = eid0]) auto
  next
    assume "listeners (deliver t st (eid0, h) s) = AList.delete eid0 (listeners s)"
      "inflight (deliver t st (eid0, h) s) = inflight s"
      "trace (deliver t st (eid0, h) s) =
        trace s @ [BranchUnloaded eid0, CountDown eid0, TabRemove eid0 (s_tabId h)] @
          (if eid0 \<in> fst ` set (listeners s) then [Unsubscribed eid0] else [])"
    with False show ?thesis
      by (intro sessionOk_other [OF assms(1), where ?eid0.0 = eid0]) auto
  qed
next
  case True
  from assms(2,3) have z: "tally eid0 s = (0, 0, 0, 0, 0)" "eid0 \<notin> fst ` set (inflight s)"
    "\<not> future eid0 (pc s)"
    by (auto simp: sessionOk_def)
  from deliver_cases [of t st eid0 h s] show ?thesis
  proof (elim disjE conjE)
    assume "deliver t st (eid0, h) s = s"
    with assms(1) show ?thesis by simp
  next
    assume a: "listeners (deliver t st (eid0, h) s) = AList.delete eid0 (listeners s)"
      "inflight (deliver t st (eid0, h) s) = AList.update eid0 h (inflight s)"
      "trace (deliver t st (eid0, h) s) =
        trace s @ [BranchComplete eid0] @
          (if eid0 \<in> fst ` set (listeners s) then [Unsubscribed eid0] else [])"
    have "tally eid0 (deliver t st (eid0, h) s) = (1, 1, 0, 0, 0)"
      using z(1) assms(3) unfolding tally_def occ_def a(3) by simp
    with a z(3) show ?thesis unfolding True sessionOk_def by simp
  next
    assume a: "listeners (deliver t st (eid0, h) s) = AList.delete eid0 (listeners s)"
      "inflight (deliver t st (eid0, h) s) = inflight s"
      "trace (deliver t st (eid0, h) s) =
        trace s @ [BranchUnloaded eid0, CountDown eid0, TabRemove eid0 (s_tabId h)] @
          (if eid0 \<in> fst ` set (listeners s) then [Unsubscribed eid0] else [])"
    have "tally eid0 (deliver t st (eid0, h) s) = (1, 1, 1, 1, 0)"
      using z(1) assms(3) unfolding tally_def occ_def a(3) by simp
    with a z(2,3) show ?thesis unfolding True sessionOk_def by simp
  qed
qed

lemma resume_sessionOk:
  assumes "sessionOk eid s" and "sessionOk eid0 s" and "eid0 \<in> fst ` set (inflight s)"
  shows "sessionOk eid (resume eid0 h oc (s\<lparr>inflight := AList.delete eid0 (inflight s)\<rparr>))"
proof -
  define s1 where "s1 = s\<lparr>inflight := AList.delete eid0 (inflight s)\<rparr>"
  have s1: "listeners s1 = listeners s" "trace s1 = trace s" "pc s1 = pc s"
    "inflight s1 = AList.delete eid0 (inflight s)"
    by (simp_all add: s1_def)
  have f: "inflight (resume eid0 h oc s1) = AList.delete eid0 (inflight s)"
    "pc (resume eid0 h oc s1) = pc s"
    by (simp_all add: s1)
  from assms(2,3) have z: "eid0 \<notin> fst ` set (listeners s)" "tally eid0 s = (1, 1, 0, 0, 0)"
    "\<not> future eid0 (pc s)"
    by (auto simp: sessionOk_def split: if_splits)
  show ?thesis
  proof (cases "eid = eid0")
    case False
    from resume_cases [of eid0 h oc s1] False f show ?thesis
      unfolding s1_def [symmetric] s1
      by (elim disjE conjE; intro sessionOk_other [OF assms(1), where ?eid0.0 = eid0]) auto
  next
    case True
    from resume_cases [of eid0 h oc s1] show ?thesis
      unfolding s1_def [symmetric]
    proof (elim disjE conjE)
      assume a: "listeners (resume eid0 h oc s1) = AList.delete eid0 (listeners s1)"
        "trace (resume eid0 h oc s1) =
          trace s1 @ [CountDown eid0, TabRemove eid0 (s_tabId h)] @
            (if eid0 \<in> fst ` set (listeners s1) then [Unsubscribed eid0] else [])"
      have "tally eid0 (resume eid0 h oc s1) = (1, 1, 1, 1, 0)"
        using z(1,2) unfolding tally_def occ_def a(2) s1 by simp
      with a(1) f z(1,3) show "sessionOk eid (resume eid0 h oc s1)"
        unfolding True sessionOk_def s1 by simp
    next
      assume a: "listeners (resume eid0 h oc s1) = listeners s1"
        "trace (resume eid0 h oc s1) = trace s1 @ [CountDown eid0, TabRemove eid0 (s_tabId h)]"
      have "tally eid0 (resume eid0 h oc s1) = (1, 1, 1, 1, 0)"
        using z(1,2) unfolding tally_def occ_def a(2) s1 by simp
      with a(1) f z(1,3) show "sessionOk eid (resume eid0 h oc s1)"
        unfolding True sessionOk_def s1 by simp
    next
      assume a: "listeners (resume eid0 h oc s1) = listeners s1" "isDiscovery eid0"
        "trace (resume eid0 h oc s1) = trace s1 @ [HandlerRejected eid0]"
      have "tally eid0 (resume eid0 h oc s1) = (1, 1, 0, 0, 1)"
        using z(1,2) unfolding tally_def occ_def a(3) s1 by simp
      with a(1,2) f z(1,3) show "sessionOk eid (resume eid0 h oc s1)"
        unfolding True sessionOk_def s1 by simp
    qed
  qed
qed

lemma sessionOk_driver:
  assumes "sessionOk eid s" and "listeners s' = listeners s" and "inflight s' = inflight s"
    and "tally eid s' = tally eid s" and "future eid (pc s') \<longrightarrow> future eid (pc s)"
  shows "sessionOk eid s'"
  using assms(1,5) unfolding sessionOk_def assms(2,3,4) by blast

lemma wake_sessionOk: "sessionOk eid s \<Longrightarrow> sessionOk eid (wake s)"
  by (erule sessionOk_driver) (auto dest: future_wake)

lemma sessionsOk_distinct: "sessionsOk s \<Longrightarrow> distinct (map fst (listeners s))"
  by (simp add: sessionsOk_def)

lemma deliver_listeners:
  "listeners (deliver t st e s) = listeners s \<or>
   listeners (deliver t st e s) = AList.delete (fst e) (listeners s)"
  using deliver_cases [of t st "fst e" "snd e" s] by auto

lemma deliver_sessionsOk:
  assumes "sessionsOk s" and "e \<in> set (listeners s)"
  shows "sessionsOk (wake (deliver t st e s))"
proof -
  obtain eid0 h where e: "e = (eid0, h)" by (cases e)
  with assms(2) have k: "eid0 \<in> fst ` set (listeners s)" by force
  have "sessionOk eid (wake (deliver t st e s))" for eid
    unfolding e using assms(1) k
    by (intro wake_sessionOk deliver_sessionOk) (simp_all add: sessionsOk_def)
  moreover have "distinct (map fst (listeners (wake (deliver t st e s))))"
    using deliver_listeners [of t st e s] sessionsOk_distinct [OF assms(1)]
    by (auto simp: distinct_delete)
  ultimately show ?thesis by (simp add: sessionsOk_def)
qed

lemma delete_set: "set (AList.delete k al) = {p \<in> set al. fst p \<noteq> k}"
  by (induction al) auto

lemma publish_registered_induct:
  assumes "P s" and "distinct (map fst (listeners s))"
    and "\<And>s' e. P s' \<Longrightarrow> e \<in> set (listeners s') \<Longrightarrow> P (wake (deliver t st e s'))"
  shows "P (publish t st s)"
proof -
  have "P (foldl (\<lambda>s' e. wake (deliver t st e s')) s0 es)"
    if "P s0" "distinct (map fst es)" "set es \<subseteq> set (listeners s0)" for s0 es
    using that
  proof (induction es arbitrary: s0)
    case Nil
    then show ?case by simp
  next
    case (Cons e es)
    let ?s1 = "wake (deliver t st e s0)"
    have p: "P ?s1" using Cons.prems by (intro assms(3)) auto
    have "set es \<subseteq> set (listeners ?s1)"
    proof
      fix x assume x: "x \<in> set es"
      with Cons.prems(2) have "fst x \<noteq> fst e" by (auto simp: image_iff)
      moreover from x Cons.prems(3) have "x \<in> set (listeners s0)" by auto
      ultimately show "x \<in> set (listeners ?s1)"
        using deliver_listeners [of t st e s0] by (auto simp: delete_set)
    qed
    with p Cons.prems(2) have "P (foldl (\<lambda>s' e. wake (deliver t st e s')) ?s1 es)"
      by (intro Cons.IH) simp_all
    then show ?case by simp
  qed
  from this [OF assms(1,2)] show ?thesis by (simp add: publish_def)
qed

lemma publish_sessionsOk: "sessionsOk s \<Longrightarrow> sessionsOk (publish t st s)"
  by (rule publish_registered_induct [where P = sessionsOk])
    (simp_all add: sessionsOk_distinct deliver_sessionsOk)

lemma map_of_keys: "map_of al k = Some v \<Longrightarrow> k \<in> fst ` set al"
  by (force dest: map_of_SomeD)

lemma settle_sessionsOk:
  assumes "sessionsOk s"
  shows "sessionsOk (settle eid0 oc s)"
proof (cases "map_of (inflight s) eid0")
  case None
  with assms show ?thesis by (simp add: settle_def)
next
  case (Some h)
  let ?s1 = "resume eid0 h oc (s\<lparr>inflight := AList.delete eid0 (inflight s)\<rparr>)"
  have "sessionOk eid (wake ?s1)" for eid
    using assms map_of_keys [OF Some]
    by (intro wake_sessionOk resume_sessionOk) (simp_all add: sessionsOk_def)
  moreover have "distinct (map fst (listeners (wake ?s1)))"
    using resume_cases [of eid0 h oc "s\<lparr>inflight := AList.delete eid0 (inflight s)\<rparr>"]
      sessionsOk_distinct [OF assms]
    by (auto simp: distinct_delete)
  ultimately show ?thesis using Some by (simp add: settle_def sessionsOk_def)
qed

lemma sessionOk_subscribe:
  assumes "sessionOk eid s" and "sessionOk eid0 s" and "future eid0 (pc s)"
    and "listeners s' = AList.update eid0 h (listeners s)" and "inflight s' = inflight s"
    and "tally eid s' = tally eid s"
    and "future eid (pc s') \<longrightarrow> future eid (pc s) \<and> eid \<noteq> eid0"
  shows "sessionOk eid s'"
proof (cases "eid = eid0")
  case True
  from assms(2,3) have "eid0 \<notin> fst ` set (inflight s)" "tally eid0 s = (0, 0, 0, 0, 0)"
    by (simp_all add: sessionOk_def)
  with assms(6,7) show ?thesis unfolding True sessionOk_def assms(4,5) by simp
next
  case False
  with assms(1,7) show ?thesis unfolding sessionOk_def assms(4,5,6) by auto
qed

lemma tally_update [simp]:
  "tally eid (s\<lparr>window := w, closeWindow := c\<rparr>) = tally eid s"
  "tally eid (s\<lparr>pc := p\<rparr>) = tally eid s"
  "tally eid (s\<lparr>si_running := r\<rparr>) = tally eid s"
  "tally eid (addListener eid0 h s) = tally eid s"
  "tally eid (emit (CatchCountDown i) s) = tally eid s"
  "tally eid (countDown1 s) = tally eid s"
  by (simp_all add: tally_def occ_def prim_defs)

lemma future_Suc: "future eid (P1Create (Suc i)) \<Longrightarrow> future eid (P1Create i) \<and> eid \<noteq> Discovery i"
  by (cases eid) auto

lemma future_next: "future eid (P2Create i (Suc j)) \<Longrightarrow> future eid (P2Create i j) \<and> eid \<noteq> Extraction i j"
  by (cases eid) auto

lemma future_P1Await: "\<not> isDiscovery eid \<Longrightarrow> future eid P1Await"
  by (cases eid) simp_all

lemma sessionsOk_driver:
  assumes "sessionsOk s" and "listeners s' = listeners s" and "inflight s' = inflight s"
    and "\<And>eid. tally eid s' = tally eid s"
    and "\<And>eid. future eid (pc s') \<Longrightarrow> future eid (pc s)"
  shows "sessionsOk s'"
proof -
  have "sessionOk eid s'" for eid
  proof (rule sessionOk_driver [of eid s])
    show "sessionOk eid s" using assms(1) by (simp add: sessionsOk_def)
    show "future eid (pc s') \<longrightarrow> future eid (pc s)" using assms(5) by blast
  qed (fact assms)+
  with assms(1,2) show ?thesis by (simp add: sessionsOk_def)
qed

lemma sessionsOk_subscribe:
  assumes "sessionsOk s" and "future eid0 (pc s)"
    and "listeners s' = AList.update eid0 h (listeners s)" and "inflight s' = inflight s"
    and "\<And>eid. tally eid s' = tally eid s"
    and "\<And>eid. future eid (pc s') \<Longrightarrow> future eid (pc s) \<and> eid \<noteq> eid0"
  shows "sessionsOk s'"
proof -
  have "sessionOk eid s'" for eid
  proof (rule sessionOk_subscribe [of eid s eid0 s' h])
    show "sessionOk eid s" "sessionOk eid0 s" using assms(1) by (simp_all add: sessionsOk_def)
    show "future eid (pc s') \<longrightarrow> future eid (pc s) \<and> eid \<noteq> eid0" using assms(6) by blast
  qed (fact assms)+
  moreover have "distinct (map fst (listeners s'))"
    unfolding assms(3) using assms(1) by (simp add: sessionsOk_def distinct_update)
  ultimately show ?thesis by (simp add: sessionsOk_def)
qed

lemma openDiscoveryTab_sessionsOk:
  assumes "sessionsOk s" and "pc s = P1Create i"
  shows "sessionsOk (openDiscoveryTab i t s)"
proof -
  define h where "h = \<lparr>s_tabId = t,
      s_filename = st_filename (buildDeepSearchUrl (fst (searchs s ! i)) (snd (searchs s ! i))),
      s_url = st_url (buildDeepSearchUrl (fst (searchs s ! i)) (snd (searchs s ! i)))\<rparr>"
  have st: "openDiscoveryTab i t s = advanceP1 (addListener (Discovery i) h s) (Suc i)"
    by (simp add: openDiscoveryTab_def Let_def h_def)
  show ?thesis unfolding st
  proof (rule sessionsOk_subscribe [OF assms(1), of "Discovery i" _ h])
    show "future (Discovery i) (pc s)" by (simp add: assms(2))
    show "listeners (advanceP1 (addListener (Discovery i) h s) (Suc i)) =
        AList.update (Discovery i) h (listeners s)"
      by (simp add: addListener_def)
    show "inflight (advanceP1 (addListener (Discovery i) h s) (Suc i)) = inflight s"
      by (simp add: addListener_def)
    show "tally eid (advanceP1 (addListener (Discovery i) h s) (Suc i)) = tally eid s" for eid
      by simp
    show "future eid (pc s) \<and> eid \<noteq> Discovery i"
      if "future eid (pc (advanceP1 (addListener (Discovery i) h s) (Suc i)))" for eid
      unfolding assms(2) using future_Suc [OF future_advanceP1 [OF that]] .
  qed
qed

lemma openExtractionTab_sessionsOk:
  assumes "sessionsOk s" and "pc s = P2Create i j"
  shows "sessionsOk (openExtractionTab i j t s)"
proof -
  define h where "h = \<lparr>s_tabId = t, s_filename = g_filename (detailLinkGroups s ! i),
      s_url = link_url (g_links (detailLinkGroups s ! i) ! j)\<rparr>"
  define s1 where "s1 = addListener (Extraction i j) h (s\<lparr>si_running := si_running s + 1\<rparr>)"
  have st: "openExtractionTab i j t s = advanceP2 s1 i (Suc j)"
    by (simp add: openExtractionTab_def Let_def h_def s1_def)
  show ?thesis unfolding st
  proof (rule sessionsOk_subscribe [OF assms(1), of "Extraction i j" _ h])
    show "future (Extraction i j) (pc s)" by (simp add: assms(2))
    show "listeners (advanceP2 s1 i (Suc j)) = AList.update (Extraction i j) h (listeners s)"
      by (simp add: s1_def addListener_def)
    show "inflight (advanceP2 s1 i (Suc j)) = inflight s"
      by (simp add: s1_def addListener_def)
    show "tally eid (advanceP2 s1 i (Suc j)) = tally eid s" for eid
      by (simp add: s1_def)
    show "future eid (pc s) \<and> eid \<noteq> Extraction i j"
      if "future eid (pc (advanceP2 s1 i (Suc j)))" for eid
      unfolding assms(2) using future_next [OF future_advanceP2 [OF that]] .
  qed
qed

lemma catch_sessionsOk:
  assumes "sessionsOk s" and "pc s = P1Create i"
  shows "sessionsOk (advanceP1 (emit (CatchCountDown i) (countDown1 s)) (Suc i))"
proof (rule sessionsOk_driver [OF assms(1)])
  show "listeners (advanceP1 (emit (CatchCountDown i) (countDown1 s)) (Suc i)) = listeners s"
    by (simp add: prim_defs)
  show "inflight (advanceP1 (emit (CatchCountDown i) (countDown1 s)) (Suc i)) = inflight s"
    by (simp add: prim_defs)
  show "tally eid (advanceP1 (emit (CatchCountDown i) (countDown1 s)) (Suc i)) = tally eid s" for eid
    by simp
  show "future eid (pc s)"
    if "future eid (pc (advanceP1 (emit (CatchCountDown i) (countDown1 s)) (Suc i)))" for eid
    unfolding assms(2) using future_Suc [OF future_advanceP1 [OF that]] by blast
qed

lemma startPhase1_sessionsOk:
  assumes "sessionsOk s" and "pc s = AwaitWindow"
  shows "sessionsOk (startPhase1 (s\<lparr>window := w, closeWindow := c\<rparr>))"
proof (rule sessionsOk_driver [OF assms(1)])
  show "future eid (pc s)" for eid by (simp add: assms(2))
qed simp_all

lemma startPhase2_sessionsOk:
  assumes "sessionsOk s" and "pc s = P1Await"
  shows "sessionsOk (startPhase2 s)"
proof (rule sessionsOk_driver [OF assms(1)])
  show "future eid (pc s)" if "future eid (pc (startPhase2 s))" for eid
    unfolding assms(2) using future_P1Await [OF future_startPhase2 [OF that]] .
qed simp_all

lemma ended_sessionsOk:
  assumes "sessionsOk s" and "\<And>eid. \<not> future eid (pc s')"
    and "listeners s' = listeners s" and "inflight s' = inflight s"
    and "\<And>eid. tally eid s' = tally eid s"
  shows "sessionsOk s'"
  by (rule sessionsOk_driver [OF assms(1,3,4,5)]) (simp add: assms(2))

lemma step_sessionsOk:
  assumes "sessionsOk s"
  shows "sessionsOk (step s a)"
proof (cases a)
  case (WindowCreated w)
  then show ?thesis
    using assms startPhase1_sessionsOk [OF assms] by (cases "pc s") simp_all
next
  case WindowCreateFailed
  have "sessionsOk (s\<lparr>pc := Failed WindowCreateError\<rparr>)"
    by (rule ended_sessionsOk [OF assms]) simp_all
  with WindowCreateFailed assms show ?thesis by (cases "pc s") simp_all
next
  case (TabCreated t)
  then show ?thesis
    using assms openDiscoveryTab_sessionsOk [OF assms] openExtractionTab_sessionsOk [OF assms]
    by (cases "pc s") simp_all
next
  case TabCreateFailed
  have "sessionsOk (s\<lparr>pc := Failed TabCreateError\<rparr>)"
    by (rule ended_sessionsOk [OF assms]) simp_all
  with TabCreateFailed show ?thesis
    using assms catch_sessionsOk [OF assms] by (cases "pc s") simp_all
next
  case (TabUpdated t st)
  with assms show ?thesis by (simp add: publish_sessionsOk)
next
  case (Settled eid oc)
  with assms show ?thesis by (simp add: settle_sessionsOk)
next
  case Timeout
  have "sessionsOk (finish s)"
    by (rule ended_sessionsOk [OF assms]) simp_all
  with Timeout show ?thesis
    using assms startPhase2_sessionsOk [OF assms] by (cases "pc s") simp_all
qed

lemma run_sessionsOk: "sessionsOk s \<Longrightarrow> sessionsOk (run s acts)"
  by (induction acts rule: rev_induct) (simp_all add: step_sessionsOk)

lemma blank_sessionsOk: "listeners s = [] \<Longrightarrow> inflight s = [] \<Longrightarrow> trace s = [] \<Longrightarrow> sessionsOk s"
  by (simp add: sessionsOk_def sessionOk_def tally_def occ_def)

lemma deepSearch_init_sessionsOk: "sessionsOk (deepSearch_init ss n w)"
proof (cases w)
  case None
  then show ?thesis
    by (intro blank_sessionsOk) (simp_all add: deepSearch_init_def blank_def)
next
  case (Some wid)
  define s0 where "s0 = blank\<lparr>searchs := ss, detailsMaxNum := n, window := Some wid\<rparr>"
  have "sessionsOk s0"
    by (intro blank_sessionsOk) (simp_all add: s0_def blank_def)
  moreover have "pc s0 = AwaitWindow" by (simp add: s0_def blank_def)
  ultimately have "sessionsOk (startPhase1 (s0\<lparr>window := Some wid, closeWindow := False\<rparr>))"
    by (rule startPhase1_sessionsOk)
  moreover have "s0\<lparr>window := Some wid, closeWindow := False\<rparr> = s0"
    by (simp add: s0_def blank_def)
  ultimately show ?thesis using Some
    by (simp add: deepSearch_init_def Let_def s0_def)
qed

lemma sessionOk_run: "sessionOk eid (run (deepSearch_init ss n w) acts)"
  using run_sessionsOk [OF deepSearch_init_sessionsOk, of ss n w acts]
  by (simp add: sessionsOk_def)

text \<open>
  What holds of every listener in every state of a task: it has taken a terminal branch
  (\<open>"complete"\<close> or \<open>"unloaded"\<close>) at most once, and once it has, it is no longer
  registered and its subscription was removed exactly once; it has counted the barrier
  down and removed its tab at most once each, never without having taken a branch, and
  exactly once each when its handler is not suspended and was not ended by a rejection.
  Only a discovery handler is ended by a rejection.
\<close>

theorem terminal_once:
  "occ Branch eid (run (deepSearch_init ss n w) acts) \<le> 1
   \<and> occ Unsub eid (run (deepSearch_init ss n w) acts) \<le> 1
   \<and> occ Count eid (run (deepSearch_init ss n w) acts) \<le> 1
   \<and> occ Close eid (run (deepSearch_init ss n w) acts) \<le> 1
   \<and> (occ Branch eid (run (deepSearch_init ss n w) acts) = 1 \<longrightarrow>
        eid \<notin> fst ` set (listeners (run (deepSearch_init ss n w) acts)) \<and>
        occ Unsub eid (run (deepSearch_init ss n w) acts) = 1)
   \<and> (occ Branch eid (run (deepSearch_init ss n w) acts) = 0 \<longrightarrow>
        occ Unsub eid (run (deepSearch_init ss n w) acts) = 0 \<and>
        occ Count eid (run (deepSearch_init ss n w) acts) = 0 \<and>
        occ Close eid (run (deepSearch_init ss n w) acts) = 0)
   \<and> (occ Branch eid (run (deepSearch_init ss n w) acts) = 1 \<and>
      eid \<notin> fst ` set (inflight (run (deepSearch_init ss n w) acts)) \<and>
      occ Reject eid (run (deepSearch_init ss n w) acts) = 0 \<longrightarrow>
        occ Count eid (run (deepSearch_init ss n w) acts) = 1 \<and>
        occ Close eid (run (deepSearch_init ss n w) acts) = 1)
   \<and> (occ Reject eid (run (deepSearch_init ss n w) acts) \<noteq> 0 \<longrightarrow> isDiscovery eid)"
proof -
  define s where "s = run (deepSearch_init ss n w) acts"
  have ok: "sessionOk eid s" unfolding s_def by (rule sessionOk_run)
  define b u c x r where "b = occ Branch eid s" and "u = occ Unsub eid s"
    and "c = occ Count eid s" and "x = occ Close eid s" and "r = occ Reject eid s"
  have t: "tally eid s = (b, u, c, x, r)"
    by (simp add: tally_def b_def u_def c_def x_def r_def)
  from ok have k:
    "(eid \<in> fst ` set (listeners s) \<and> (b, u, c, x, r) = (0, 0, 0, 0, 0)) \<or>
     (eid \<notin> fst ` set (listeners s) \<and> eid \<in> fst ` set (inflight s) \<and>
        (b, u, c, x, r) = (1, 1, 0, 0, 0)) \<or>
     (eid \<notin> fst ` set (listeners s) \<and> eid \<notin> fst ` set (inflight s) \<and>
        ((b, u, c, x, r) = (0, 0, 0, 0, 0) \<or> (b, u, c, x, r) = (1, 1, 1, 1, 0) \<or>
         (b, u, c, x, r) = (1, 1, 0, 0, 1) \<and> isDiscovery eid))"
    unfolding sessionOk_def t by (auto split: if_splits)
  have "b \<le> 1 \<and> u \<le> 1 \<and> c \<le> 1 \<and> x \<le> 1
     \<and> (b = 1 \<longrightarrow> eid \<notin> fst ` set (listeners s) \<and> u = 1)
     \<and> (b = 0 \<longrightarrow> u = 0 \<and> c = 0 \<and> x = 0)
     \<and> (b = 1 \<and> eid \<notin> fst ` set (inflight s) \<and> r = 0 \<longrightarrow> c = 1 \<and> x = 1)
     \<and> (r \<noteq> 0 \<longrightarrow> isDiscovery eid)"
    using k by auto
  then show ?thesis
    unfolding b_def u_def c_def x_def r_def s_def .
qed

theorem terminal_once_witness:
  "occ Branch (Extraction 0 0)
     (run (deepSearch_init [(''https://bing.com'', ''ai'')] 5 (Some 7))
        [TabCreated 1, TabUpdated 1 Complete,
         Settled (Discovery 0)
           (Reply (Some \<lparr>r_links = Some [\<lparr>link_title = ''a'', link_url = ''u'',
                                          link_content = None, link_page_title = None\<rparr>],
                         r_title = None, r_content = None\<rparr>)),
         TabCreated 2, TabUpdated 2 Complete, TabUpdated 2 Complete,
         Settled (Extraction 0 0) MessageError, TabUpdated 2 Unloaded]) = 1
   \<and> occ Count (Extraction 0 0)
     (run (deepSearch_init [(''https://bing.com'', ''ai'')] 5 (Some 7))
        [TabCreated 1, TabUpdated 1 Complete,
         Settled (Discovery 0)
           (Reply (Some \<lparr>r_links = Some [\<lparr>link_title = ''a'', link_url = ''u'',
                                          link_content = None, link_page_title = None\<rparr>],
                         r_title = None, r_content = None\<rparr>)),
         TabCreated 2, TabUpdated 2 Complete, TabUpdated 2 Complete,
         Settled (Extraction 0 0) MessageError, TabUpdated 2 Unloaded]) = 1
   \<and> occ Close (Extraction 0 0)
     (run (deepSearch_init [(''https://bing.com'', ''ai'')] 5 (Some 7))
        [TabCreated 1, TabUpdated 1 Complete,
         Settled (Discovery 0)
           (Reply (Some \<lparr>r_links = Some [\<lparr>link_title = ''a'', link_url = ''u'',
                                          link_content = None, link_page_title = None\<rparr>],
                         r_title = None, r_content = None\<rparr>)),
         TabCreated 2, TabUpdated 2 Complete, TabUpdated 2 Complete,
         Settled (Extraction 0 0) MessageError, TabUpdated 2 Unloaded]) = 1"
proof -
  define acts where "acts = [TabCreated 1, TabUpdated 1 Complete,
         Settled (Discovery 0)
           (Reply (Some \<lparr>r_links = Some [\<lparr>link_title = ''a'', link_url = ''u'',
                                          link_content = None, link_page_title = None\<rparr>],
                         r_title = None, r_content = None\<rparr>)),
         TabCreated 2, TabUpdated 2 Complete, TabUpdated 2 Complete,
         Settled (Extraction 0 0) MessageError, TabUpdated 2 Unloaded]"
  define s where "s = run (deepSearch_init [(''https://bing.com'', ''ai'')] 5 (Some 7)) acts"
  have b: "occ Branch (Extraction 0 0) s = 1" unfolding s_def acts_def by code_simp
  have i: "Extraction 0 0 \<notin> fst ` set (inflight s)" unfolding s_def acts_def by code_simp
  have r: "occ Reject (Extraction 0 0) s = 0" unfolding s_def acts_def by code_simp
  from terminal_once [of "Extraction 0 0" "[(''https://bing.com'', ''ai'')]" 5 "Some 7" acts]
    b i r
  show ?thesis unfolding s_def [symmetric] acts_def [symmetric] by simp
qed

text \<open>
  C1, at the failing input. \<open>execute({query: "ai"})\<close>, where the tab of the search
  reports \<open>"complete"\<close> and \<open>injectScript\<close> rejects: the handler of the discovery
  session has taken the \<open>"complete"\<close> branch and removed its subscription, and later
  events of the tab run no branch again, but it has neither counted the barrier down nor
  removed its tab, where the claim says both happen exactly once; the barrier stays at 1
  and the phase ends by its timeout. An extraction session with the same rejection counts
  down and removes its tab once: its branch has the \<open>try\<close> and \<open>finally\<close> that the
  discovery branch misses.
\<close>

theorem rejected_discovery_never_counts_down:
  "validParams (JObj [(''query'', JStr ''ai'')])
   \<and> (let s = run (execute_init (JObj [(''query'', JStr ''ai'')]))
              [WindowCreated 7, TabCreated 1, TabUpdated 1 Complete,
               Settled (Discovery 0) InjectError,
               TabUpdated 1 Complete, TabUpdated 1 Unloaded, Timeout]
    in occ Branch (Discovery 0) s = 1 \<and> occ Unsub (Discovery 0) s = 1 \<and>
       occ Count (Discovery 0) s = 0 \<and> occ Close (Discovery 0) s = 0 \<and>
       occ Reject (Discovery 0) s = 1 \<and>
       listeners s = [] \<and> inflight s = [] \<and> latch1 s = 1 \<and> pc s = Returned [])
   \<and> (let s = run (execute_init (JObj [(''query'', JStr ''ai'')]))
              [WindowCreated 7, TabCreated 1, TabUpdated 1 Complete,
               Settled (Discovery 0)
                 (Reply (Some \<lparr>r_links = Some [\<lparr>link_title = ''a'', link_url = ''u'',
                                           link_content = None, link_page_title = None\<rparr>],
                               r_title = None, r_content = None\<rparr>)),
               TabCreated 2, TabUpdated 2 Complete, Settled (Extraction 0 0) InjectError]
    in occ Branch (Extraction 0 0) s = 1 \<and> occ Unsub (Extraction 0 0) s = 1 \<and>
       occ Count (Extraction 0 0) s = 1 \<and> occ Close (Extraction 0 0) s = 1 \<and>
       occ Reject (Extraction 0 0) s = 0 \<and>
       listeners s = [] \<and> inflight s = [] \<and> latch2 s = 0 \<and> pc s = Returned [])"
  by code_simp

section \<open>A tab that reaches \<open>"complete"\<close>\<close>

lemma deliver_complete:
  "listeners (deliver (s_tabId h) Complete (eid, h) s) = AList.delete eid (listeners s)"
  "inflight (deliver (s_tabId h) Complete (eid, h) s) = AList.update eid h (inflight s)"
  by (cases eid; simp add: handler_defs prim_defs Let_def)+

lemma deliver_other:
  assumes "fst e \<noteq> eid"
  shows "map_of (inflight (deliver t st e s)) eid = map_of (inflight s) eid"
    and "eid \<notin> fst ` set (listeners s) \<Longrightarrow> eid \<notin> fst ` set (listeners (deliver t st e s))"
proof -
  obtain k h where e: "e = (k, h)" by (cases e)
  from deliver_cases [of t st k h s] assms
  show "map_of (inflight (deliver t st e s)) eid = map_of (inflight s) eid"
    unfolding e by (auto simp: update_conv')
  from deliver_listeners [of t st e s]
  show "eid \<notin> fst ` set (listeners s) \<Longrightarrow> eid \<notin> fst ` set (listeners (deliver t st e s))"
    by (auto simp: delete_set)
qed

text \<open>
  Publishing \<open>"complete"\<close> for the tab of a registered listener leaves that listener
  suspended in its \<open>"complete"\<close> branch, and no longer registered.
\<close>

lemma publish_complete_suspends:
  assumes "distinct (map fst (listeners s))" and "(eid, h) \<in> set (listeners s)"
  shows "map_of (inflight (publish (s_tabId h) Complete s)) eid = Some h \<and>
         eid \<notin> fst ` set (listeners (publish (s_tabId h) Complete s))"
proof -
  let ?f = "\<lambda>s' e. wake (deliver (s_tabId h) Complete e s')"
  let ?Q = "\<lambda>s'. map_of (inflight s') eid = Some h \<and> eid \<notin> fst ` set (listeners s')"
  have keep: "?Q (foldl ?f s0 es)" if "?Q s0" "eid \<notin> fst ` set es" for s0 es
    using that
  proof (induction es arbitrary: s0)
    case Nil
    then show ?case by simp
  next
    case (Cons e es)
    from Cons.prems(2) have ne: "fst e \<noteq> eid" by auto
    from deliver_other [OF ne, where t = "s_tabId h" and st = Complete and s = s0] Cons.prems(1)
    have "?Q (wake (deliver (s_tabId h) Complete e s0))" by simp
    with Cons.prems(2) have "?Q (foldl ?f (wake (deliver (s_tabId h) Complete e s0)) es)"
      by (intro Cons.IH) auto
    then show ?case by simp
  qed
  have reach: "?Q (foldl ?f s0 es)"
    if "(eid, h) \<in> set es" "distinct (map fst es)" for s0 es
    using that
  proof (induction es arbitrary: s0)
    case Nil
    then show ?case by simp
  next
    case (Cons e es)
    show ?case
    proof (cases "e = (eid, h)")
      case True
      have "?Q (wake (deliver (s_tabId h) Complete e s0))"
        unfolding True by (simp add: deliver_complete update_conv')
      moreover from Cons.prems(2) True have "eid \<notin> fst ` set es" by auto
      ultimately have "?Q (foldl ?f (wake (deliver (s_tabId h) Complete e s0)) es)"
        by (rule keep)
      then show ?thesis by simp
    next
      case False
      with Cons.prems have "(eid, h) \<in> set es" "distinct (map fst es)" by auto
      then have "?Q (foldl ?f (wake (deliver (s_tabId h) Complete e s0)) es)"
        by (rule Cons.IH)
      then show ?thesis by simp
    qed
  qed
  from reach [OF assms(2,1)] show ?thesis by (simp add: publish_def)
qed

section \<open>Handlers after their suspension\<close>

lemma settle_inflight:
  "map_of (inflight s) eid = Some h \<Longrightarrow>
   settle eid oc s = wake (resume eid h oc (s\<lparr>inflight := AList.delete eid (inflight s)\<rparr>))"
  by (simp add: settle_def)

lemma slice0_Nil [simp]: "slice0 [] n = []"
  by (simp add: slice0_def)

lemma slice0_nonneg: "0 \<le> n \<Longrightarrow> slice0 xs n = take (nat n) xs"
  by (simp add: slice0_def)

lemma discoveryResume_reply:
  "detailLinkGroups (discoveryResume i h (Reply r) s) =
     detailLinkGroups s @
       [\<lparr>g_url = s_url h,
         g_links = slice0 (case r of None \<Rightarrow> []
                           | Some resp \<Rightarrow> (case r_links resp of None \<Rightarrow> [] | Some ls \<Rightarrow> ls))
                     (detailsMaxNum s),
         g_filename = s_filename h\<rparr>]"
  "latch1 (discoveryResume i h (Reply r) s) = latch1 s - 1"
  by (simp_all add: discoveryResume_def prim_defs Let_def)

text \<open>
  C6. Publishing \<open>"complete"\<close> for the tab of a registered discovery listener
  suspends it in its \<open>"complete"\<close> branch. A discovery handler suspended there that gets no response
  object, or one without \<open>links\<close>, appends a link group with no links and counts the
  barrier down (floored at 0). Whatever the outcome of the handler (a rejected
  \<open>injectScript\<close> or \<open>sendMessage\<close> included), and whatever event is published, the
  body of the task does not end in an error unless it had before.
\<close>

theorem discovery_missing_response:
  assumes "map_of (inflight s) (Discovery i) = Some h"
    and "r = None \<or> (\<exists>resp. r = Some resp \<and> r_links resp = None)"
  shows "detailLinkGroups (settle (Discovery i) (Reply r) s) =
           detailLinkGroups s @ [\<lparr>g_url = s_url h, g_links = [], g_filename = s_filename h\<rparr>]
         \<and> latch1 (settle (Discovery i) (Reply r) s) = latch1 s - 1
         \<and> (\<forall>oc e. pc (settle (Discovery i) oc s) = Failed e \<longrightarrow> pc s = Failed e)
         \<and> (\<forall>t st e. pc (publish t st s) = Failed e \<longrightarrow> pc s = Failed e)
         \<and> (distinct (map fst (listeners s0)) \<and> (Discovery i, h0) \<in> set (listeners s0) \<longrightarrow>
              map_of (inflight (publish (s_tabId h0) Complete s0)) (Discovery i) = Some h0)"
proof -
  from assms(2) have l: "(case r of None \<Rightarrow> []
      | Some resp \<Rightarrow> (case r_links resp of None \<Rightarrow> [] | Some ls \<Rightarrow> ls)) = []"
    by auto
  have a: "detailLinkGroups (settle (Discovery i) (Reply r) s) =
           detailLinkGroups s @ [\<lparr>g_url = s_url h, g_links = [], g_filename = s_filename h\<rparr>]"
    unfolding settle_inflight [OF assms(1)] by (simp add: discoveryResume_reply l)
  have b: "latch1 (settle (Discovery i) (Reply r) s) = latch1 s - 1"
    unfolding settle_inflight [OF assms(1)] by (simp add: discoveryResume_reply)
  have c: "\<forall>oc e. pc (settle (Discovery i) oc s) = Failed e \<longrightarrow> pc s = Failed e"
    using settle_pc [of s "Discovery i"] by (simp add: settled_pc_def)
  have d: "\<forall>t st e. pc (publish t st s) = Failed e \<longrightarrow> pc s = Failed e"
    using publish_pc [of s] by (simp add: settled_pc_def)
  have e: "distinct (map fst (listeners s0)) \<and> (Discovery i, h0) \<in> set (listeners s0) \<longrightarrow>
      map_of (inflight (publish (s_tabId h0) Complete s0)) (Discovery i) = Some h0"
    using publish_complete_suspends [of s0 "Discovery i" h0] by blast
  from a b c d e show ?thesis by blast
qed

theorem discovery_missing_response_witness:
  "map_of (inflight (run (deepSearch_init [(''https://bing.com'', ''ai'')] 5 (Some 7))
             [TabCreated 1, TabUpdated 1 Complete])) (Discovery 0)
     = Some \<lparr>s_tabId = 1, s_filename = ''bing.js'', s_url = ''https://bing.com/search?q=ai''\<rparr>
   \<and> detailLinkGroups (run (deepSearch_init [(''https://bing.com'', ''ai'')] 5 (Some 7))
         [TabCreated 1, TabUpdated 1 Complete, Settled (Discovery 0) (Reply None)])
     = [\<lparr>g_url = ''https://bing.com/search?q=ai'', g_links = [], g_filename = ''bing.js''\<rparr>]
   \<and> latch1 (run (deepSearch_init [(''https://bing.com'', ''ai'')] 5 (Some 7))
         [TabCreated 1, TabUpdated 1 Complete, Settled (Discovery 0) (Reply None)]) = 0
   \<and> pc (run (deepSearch_init [(''https://bing.com'', ''ai'')] 5 (Some 7))
         [TabCreated 1, TabUpdated 1 Complete, Settled (Discovery 0) InjectError]) = P1Await"
proof -
  define s where "s = run (deepSearch_init [(''https://bing.com'', ''ai'')] 5 (Some 7))
             [TabCreated 1, TabUpdated 1 Complete]"
  have m: "map_of (inflight s) (Discovery 0)
     = Some \<lparr>s_tabId = 1, s_filename = ''bing.js'', s_url = ''https://bing.com/search?q=ai''\<rparr>"
    unfolding s_def by code_simp
  have g: "detailLinkGroups s = []" unfolding s_def by code_simp
  have l: "latch1 s = 1" unfolding s_def by code_simp
  have p: "pc (settle (Discovery 0) InjectError s) = P1Await" unfolding s_def by code_simp
  have r: "run (deepSearch_init [(''https://bing.com'', ''ai'')] 5 (Some 7))
         [TabCreated 1, TabUpdated 1 Complete, Settled (Discovery 0) oc] = settle (Discovery 0) oc s"
    for oc
    unfolding s_def run_def by simp
  from discovery_missing_response [OF m, of None] m g l p
  show ?thesis unfolding r s_def [symmetric] by simp
qed

lemma extractionResume_frame [simp]:
  "si_running (extractionResume i j h oc s) = si_running s - 1"
  "latch2 (extractionResume i j h oc s) = latch2 s - 1"
  "latch1 (extractionResume i j h oc s) = latch1 s"
  "si_total (extractionResume i j h oc s) = si_total s"
  "listeners (extractionResume i j h oc s) = AList.delete (Extraction i j) (listeners s)"
  "trace (extractionResume i j h oc s) =
     trace s @ [CountDown (Extraction i j), TabRemove (Extraction i j) (s_tabId h)] @
       (if Extraction i j \<in> fst ` set (listeners s) then [Unsubscribed (Extraction i j)] else [])"
  by (simp_all add: extractionResume_def writeLink_def prim_defs Let_def
      split: outcome.splits option.splits)

lemma extractionResume_success:
  "si_succeed (extractionResume i j h (Reply (Some r)) s) = si_succeed s + 1"
  "si_failed (extractionResume i j h (Reply (Some r)) s) = si_failed s"
  "si_failedLinks (extractionResume i j h (Reply (Some r)) s) = si_failedLinks s"
  "detailLinkGroups (extractionResume i j h (Reply (Some r)) s) =
     detailLinkGroups (writeLink i j r s)"
  by (simp_all add: extractionResume_def writeLink_def prim_defs Let_def)

lemma extractionResume_failure:
  assumes "oc \<in> {InjectError, MessageError, Reply None}"
  shows "si_succeed (extractionResume i j h oc s) = si_succeed s"
    "si_failed (extractionResume i j h oc s) = si_failed s + 1"
    "si_failedLinks (extractionResume i j h oc s) = si_failedLinks s @ [(i, j)]"
    "detailLinkGroups (extractionResume i j h oc s) = detailLinkGroups s"
  using assms by (auto simp: extractionResume_def prim_defs Let_def)

lemma writeLink_at:
  "i < length (detailLinkGroups s) \<Longrightarrow> j < length (g_links (detailLinkGroups s ! i)) \<Longrightarrow>
   g_links (detailLinkGroups (writeLink i j r s) ! i) ! j =
     (g_links (detailLinkGroups s ! i) ! j)\<lparr>link_content := r_content r, link_page_title := r_title r\<rparr>"
  by (simp add: writeLink_def Let_def)

text \<open>
  C7. Publishing \<open>"complete"\<close> for the tab of a registered extraction listener
  suspends it in its \<open>"complete"\<close> branch. An extraction handler resumed from there: with a response
  object it writes \<open>content\<close> and \<open>page_title\<close> into its link, in place, and increments
  \<open>succeed\<close>; with a rejected \<open>injectScript\<close> or \<open>sendMessage\<close>, or no response, it
  increments \<open>failed\<close> and appends its link to \<open>failedLinks\<close>. In every case it
  decrements \<open>running\<close>, counts the barrier down, removes the tab and removes its
  listener. Five extraction tabs of which the third gets no response end with
  \<open>succeed = 4\<close>, \<open>failed = 1\<close>, that link alone in \<open>failedLinks\<close>, and \<open>execute\<close>
  returns the other four.
\<close>

theorem extraction_outcomes:
  "(oc = Reply (Some r) \<longrightarrow>
      si_succeed (extractionResume i j h oc s) = si_succeed s + 1 \<and>
      si_failed (extractionResume i j h oc s) = si_failed s \<and>
      si_failedLinks (extractionResume i j h oc s) = si_failedLinks s \<and>
      (i < length (detailLinkGroups s) \<and> j < length (g_links (detailLinkGroups s ! i)) \<longrightarrow>
         g_links (detailLinkGroups (extractionResume i j h oc s) ! i) ! j =
           (g_links (detailLinkGroups s ! i) ! j)
             \<lparr>link_content := r_content r, link_page_title := r_title r\<rparr>))
   \<and> (oc \<in> {InjectError, MessageError, Reply None} \<longrightarrow>
      si_failed (extractionResume i j h oc s) = si_failed s + 1 \<and>
      si_failedLinks (extractionResume i j h oc s) = si_failedLinks s @ [(i, j)] \<and>
      si_succeed (extractionResume i j h oc s) = si_succeed s \<and>
      detailLinkGroups (extractionResume i j h oc s) = detailLinkGroups s)
   \<and> si_running (extractionResume i j h oc s) = si_running s - 1
   \<and> latch2 (extractionResume i j h oc s) = latch2 s - 1
   \<and> CountDown (Extraction i j) \<in> set (trace (extractionResume i j h oc s))
   \<and> TabRemove (Extraction i j) (s_tabId h) \<in> set (trace (extractionResume i j h oc s))
   \<and> Extraction i j \<notin> fst ` set (listeners (extractionResume i j h oc s))
   \<and> (distinct (map fst (listeners s0)) \<and> (Extraction i j, h) \<in> set (listeners s0) \<longrightarrow>
        map_of (inflight (publish (s_tabId h) Complete s0)) (Extraction i j) = Some h)
   \<and> (map_of (inflight s) (Extraction i j) = Some h \<longrightarrow>
        settle (Extraction i j) oc s =
          wake (extractionResume i j h oc
                 (s\<lparr>inflight := AList.delete (Extraction i j) (inflight s)\<rparr>)))
   \<and> (let l = (\<lambda>u. \<lparr>link_title = u, link_url = u, link_content = None,
                       link_page_title = None\<rparr>);
           ok = Reply (Some \<lparr>r_links = None, r_title = Some ''T'', r_content = Some ''C''\<rparr>);
           l' = (\<lambda>u. \<lparr>link_title = u, link_url = u, link_content = Some ''C'',
                        link_page_title = Some ''T''\<rparr>);
           acts =
             [WindowCreated 7, TabCreated 1, TabUpdated 1 Complete,
              Settled (Discovery 0)
                (Reply (Some \<lparr>r_links = Some [l ''a'', l ''b'', l ''c'', l ''d'', l ''e''],
                              r_title = None, r_content = None\<rparr>)),
              TabCreated 11, TabCreated 12, TabCreated 13, TabCreated 14, TabCreated 15,
              TabUpdated 11 Complete, TabUpdated 12 Complete, TabUpdated 13 Complete,
              TabUpdated 14 Complete, TabUpdated 15 Complete,
              Settled (Extraction 0 0) ok, Settled (Extraction 0 1) ok,
              Settled (Extraction 0 2) (Reply None),
              Settled (Extraction 0 3) ok, Settled (Extraction 0 4) ok];
           s' = run (execute_init (JObj [(''query'', JStr ''ai'')])) acts
       in si_total s' = 5 \<and> si_succeed s' = 4 \<and> si_failed s' = 1 \<and> si_running s' = 0
          \<and> failedLinkObjects s' = [l ''c'']
          \<and> pc s' = Returned [l' ''a'', l' ''b'', l' ''d'', l' ''e''])"
proof -
  have a: "oc = Reply (Some r) \<longrightarrow>
      si_succeed (extractionResume i j h oc s) = si_succeed s + 1 \<and>
      si_failed (extractionResume i j h oc s) = si_failed s \<and>
      si_failedLinks (extractionResume i j h oc s) = si_failedLinks s \<and>
      (i < length (detailLinkGroups s) \<and> j < length (g_links (detailLinkGroups s ! i)) \<longrightarrow>
         g_links (detailLinkGroups (extractionResume i j h oc s) ! i) ! j =
           (g_links (detailLinkGroups s ! i) ! j)
             \<lparr>link_content := r_content r, link_page_title := r_title r\<rparr>)"
    by (simp add: extractionResume_success writeLink_at)
  have b: "oc \<in> {InjectError, MessageError, Reply None} \<longrightarrow>
      si_failed (extractionResume i j h oc s) = si_failed s + 1 \<and>
      si_failedLinks (extractionResume i j h oc s) = si_failedLinks s @ [(i, j)] \<and>
      si_succeed (extractionResume i j h oc s) = si_succeed s \<and>
      detailLinkGroups (extractionResume i j h oc s) = detailLinkGroups s"
    using extractionResume_failure [of oc i j h s] by blast
  have c: "si_running (extractionResume i j h oc s) = si_running s - 1"
    "latch2 (extractionResume i j h oc s) = latch2 s - 1"
    "CountDown (Extraction i j) \<in> set (trace (extractionResume i j h oc s))"
    "TabRemove (Extraction i j) (s_tabId h) \<in> set (trace (extractionResume i j h oc s))"
    "Extraction i j \<notin> fst ` set (listeners (extractionResume i j h oc s))"
    by simp_all
  have p: "distinct (map fst (listeners s0)) \<and> (Extraction i j, h) \<in> set (listeners s0) \<longrightarrow>
        map_of (inflight (publish (s_tabId h) Complete s0)) (Extraction i j) = Some h"
    using publish_complete_suspends [of s0 "Extraction i j" h] by blast
  have d: "map_of (inflight s) (Extraction i j) = Some h \<longrightarrow>
        settle (Extraction i j) oc s =
          wake (extractionResume i j h oc
                 (s\<lparr>inflight := AList.delete (Extraction i j) (inflight s)\<rparr>))"
    by (simp add: settle_def)
  have e: "(let l = (\<lambda>u. \<lparr>link_title = u, link_url = u, link_content = None,
                       link_page_title = None\<rparr>);
           ok = Reply (Some \<lparr>r_links = None, r_title = Some ''T'', r_content = Some ''C''\<rparr>);
           l' = (\<lambda>u. \<lparr>link_title = u, link_url = u, link_content = Some ''C'',
                        link_page_title = Some ''T''\<rparr>);
           acts =
             [WindowCreated 7, TabCreated 1, TabUpdated 1 Complete,
              Settled (Discovery 0)
                (Reply (Some \<lparr>r_links = Some [l ''a'', l ''b'', l ''c'', l ''d'', l ''e''],
                              r_title = None, r_content = None\<rparr>)),
              TabCreated 11, TabCreated 12, TabCreated 13, TabCreated 14, TabCreated 15,
              TabUpdated 11 Complete, TabUpdated 12 Complete, TabUpdated 13 Complete,
              TabUpdated 14 Complete, TabUpdated 15 Complete,
              Settled (Extraction 0 0) ok, Settled (Extraction 0 1) ok,
              Settled (Extraction 0 2) (Reply None),
              Settled (Extraction 0 3) ok, Settled (Extraction 0 4) ok];
           s' = run (execute_init (JObj [(''query'', JStr ''ai'')])) acts
       in si_total s' = 5 \<and> si_succeed s' = 4 \<and> si_failed s' = 1 \<and> si_running s' = 0
          \<and> failedLinkObjects s' = [l ''c'']
          \<and> pc s' = Returned [l' ''a'', l' ''b'', l' ''d'', l' ''e''])"
    by code_simp
  from a b c p d e show ?thesis by blast
qed

theorem extraction_outcomes_witness:
  "si_succeed
     (extractionResume 0 0 \<lparr>s_tabId = 11, s_filename = ''google.js'', s_url = ''a''\<rparr>
        (Reply (Some \<lparr>r_links = None, r_title = Some ''T'', r_content = Some ''C''\<rparr>))
        (run (execute_init (JObj [(''query'', JStr ''ai'')]))
           [WindowCreated 7, TabCreated 1, TabUpdated 1 Complete,
            Settled (Discovery 0)
              (Reply (Some \<lparr>r_links = Some [\<lparr>link_title = ''a'', link_url = ''a'',
                                             link_content = None, link_page_title = None\<rparr>],
                            r_title = None, r_content = None\<rparr>)),
            TabCreated 11, TabUpdated 11 Complete])) = 1
   \<and> si_failedLinks
     (extractionResume 0 0 \<lparr>s_tabId = 11, s_filename = ''google.js'', s_url = ''a''\<rparr>
        (Reply None)
        (run (execute_init (JObj [(''query'', JStr ''ai'')]))
           [WindowCreated 7, TabCreated 1, TabUpdated 1 Complete,
            Settled (Discovery 0)
              (Reply (Some \<lparr>r_links = Some [\<lparr>link_title = ''a'', link_url = ''a'',
                                             link_content = None, link_page_title = None\<rparr>],
                            r_title = None, r_content = None\<rparr>)),
            TabCreated 11, TabUpdated 11 Complete])) = [(0, 0)]"
proof -
  define s where "s = run (execute_init (JObj [(''query'', JStr ''ai'')]))
           [WindowCreated 7, TabCreated 1, TabUpdated 1 Complete,
            Settled (Discovery 0)
              (Reply (Some \<lparr>r_links = Some [\<lparr>link_title = ''a'', link_url = ''a'',
                                             link_content = None, link_page_title = None\<rparr>],
                            r_title = None, r_content = None\<rparr>)),
            TabCreated 11, TabUpdated 11 Complete]"
  define h where "h = \<lparr>s_tabId = 11, s_filename = ''google.js'', s_url = ''a''\<rparr>"
  define r where "r = \<lparr>r_links = None, r_title = Some ''T'', r_content = Some ''C''\<rparr>"
  have s0: "si_succeed s = 0" unfolding s_def by code_simp
  have f0: "si_failedLinks s = []" unfolding s_def by code_simp
  have ok: "si_succeed (extractionResume 0 0 h (Reply (Some r)) s) = si_succeed s + 1"
    using extraction_outcomes [of "Reply (Some r)" r 0 0 h s, THEN conjunct1] by simp
  have "Reply None \<in> {InjectError, MessageError, Reply None}" by simp
  with extraction_outcomes [of "Reply None" r 0 0 h s, THEN conjunct2, THEN conjunct1]
  have ko: "si_failedLinks (extractionResume 0 0 h (Reply None) s) = si_failedLinks s @ [(0, 0)]"
    by blast
  from ok ko s0 f0 show ?thesis unfolding s_def h_def r_def by simp
qed

section \<open>Truncation of the discovered links\<close>

lemma writeLink_lengths [simp]:
  "map (\<lambda>g. length (g_links g)) (detailLinkGroups (writeLink i j r s)) =
   map (\<lambda>g. length (g_links g)) (detailLinkGroups s)"
proof (cases "i < length (detailLinkGroups s)")
  case True
  then show ?thesis
    by (simp add: writeLink_def Let_def map_update list_update_same_conv)
next
  case False
  then show ?thesis by (simp add: writeLink_def Let_def list_update_beyond)
qed

lemma extractionResume_lengths [simp]:
  "map (\<lambda>g. length (g_links g)) (detailLinkGroups (extractionResume i j h oc s)) =
   map (\<lambda>g. length (g_links g)) (detailLinkGroups s)"
proof (cases "\<exists>r. oc = Reply (Some r)")
  case True
  then show ?thesis by (auto simp: extractionResume_success)
next
  case False
  then have "oc \<in> {InjectError, MessageError, Reply None}"
    by (cases oc) auto
  then show ?thesis by (simp add: extractionResume_failure)
qed

lemma discoveryResume_groups:
  "detailLinkGroups (discoveryResume i h oc s) = detailLinkGroups s \<or>
   (\<exists>ls. detailLinkGroups (discoveryResume i h oc s) =
      detailLinkGroups s @
        [\<lparr>g_url = s_url h, g_links = slice0 ls (detailsMaxNum s), g_filename = s_filename h\<rparr>])"
proof (cases oc)
  case (Reply r)
  show ?thesis unfolding Reply discoveryResume_reply by blast
qed (simp_all add: discoveryResume_def prim_defs)

lemma slice0_length: "0 \<le> n \<Longrightarrow> int (length (slice0 xs n)) \<le> n"
  by (simp add: slice0_def)

lemma resume_bounded:
  assumes "0 \<le> detailsMaxNum s" and "groupsBounded s"
  shows "groupsBounded (resume eid h oc s)"
proof (cases eid)
  case (Discovery i)
  from discoveryResume_groups [of i h oc s] assms show ?thesis
    unfolding Discovery groupsBounded_def resume.simps
    using resume_frame(2) [of "Discovery i" h oc s] slice0_length [of "detailsMaxNum s"]
    by auto
next
  case (Extraction i j)
  from assms show ?thesis
    unfolding Extraction groupsBounded_def using resume_frame(2) [of "Extraction i j" h oc s]
    by simp
qed

lemma groupsBounded_cong:
  "detailLinkGroups s' = detailLinkGroups s \<Longrightarrow> detailsMaxNum s' = detailsMaxNum s \<Longrightarrow>
   groupsBounded s \<Longrightarrow> groupsBounded s'"
  by (simp add: groupsBounded_def)

lemma step_groups:
  "(\<forall>eid oc. a \<noteq> Settled eid oc) \<Longrightarrow>
   detailLinkGroups (step s a) = detailLinkGroups s \<or> detailLinkGroups (step s a) = []"
  by (cases a; cases "pc s")
    (simp_all add: openDiscoveryTab_def openExtractionTab_def Let_def prim_defs)

lemma step_bounded:
  assumes "0 \<le> detailsMaxNum s" and "groupsBounded s"
  shows "groupsBounded (step s a)"
proof (cases "\<exists>eid oc. a = Settled eid oc")
  case True
  then obtain eid oc where a: "a = Settled eid oc" by blast
  show ?thesis
  proof (cases "map_of (inflight s) eid")
    case None
    with a assms(2) show ?thesis by (simp add: settle_def)
  next
    case (Some h)
    have "groupsBounded (resume eid h oc (s\<lparr>inflight := AList.delete eid (inflight s)\<rparr>))"
      by (rule resume_bounded) (use assms in \<open>simp_all add: groupsBounded_def\<close>)
    then have "groupsBounded (wake (resume eid h oc (s\<lparr>inflight := AList.delete eid (inflight s)\<rparr>)))"
      by (rule groupsBounded_cong [rotated 2]) simp_all
    with a Some show ?thesis by (simp add: settle_def)
  qed
next
  case False
  then have "detailLinkGroups (step s a) = detailLinkGroups s \<or> detailLinkGroups (step s a) = []"
    by (intro step_groups) blast
  with assms(2) show ?thesis by (auto simp: groupsBounded_def)
qed

lemma run_bounded:
  "0 \<le> detailsMaxNum s \<Longrightarrow> groupsBounded s \<Longrightarrow> groupsBounded (run s acts)"
  by (induction acts rule: rev_induct) (simp_all add: step_bounded)

lemma deepSearch_init_groups [simp]:
  "detailLinkGroups (deepSearch_init ss n w) = []" "detailsMaxNum (deepSearch_init ss n w) = n"
  by (simp_all add: deepSearch_init_def blank_def Let_def split: option.splits)

text \<open>
  C8, as stated, fails for a negative limit: \<open>slice(0, -1)\<close> keeps all links but the
  last, here 9 of 10, which is more than the limit.
\<close>

theorem negative_limit_keeps_links:
  "(let l = \<lparr>link_title = ''t'', link_url = ''u'', link_content = None,
              link_page_title = None\<rparr>;
        s = run (execute_init (JObj [(''query'', JStr ''ai''), (''maxResults'', JNum (- 1))]))
              [WindowCreated 7, TabCreated 1, TabUpdated 1 Complete,
               Settled (Discovery 0)
                 (Reply (Some \<lparr>r_links = Some [l, l, l, l, l, l, l, l, l, l],
                               r_title = None, r_content = None\<rparr>))]
    in detailsMaxNum s = - 1 \<and> map (\<lambda>g. length (g_links g)) (detailLinkGroups s) = [9]
       \<and> si_total s = 9 \<and> pc s = P2Create 0 0)"
  by code_simp

text \<open>
  C8, amended. With a limit that is not negative, no link group of any state of a task
  has more links than the limit: a discovery handler takes the first \<open>detailsMaxNum\<close>
  links of its response before it appends the group, and content extraction counts and
  opens the links of the groups as they are. With \<open>maxResults = 2\<close>, a response of 10
  links is cut to exactly 2, and extraction starts with \<open>total = 2\<close>.
\<close>

theorem discovery_truncates:
  assumes "0 \<le> n"
  shows "(\<forall>g \<in> set (detailLinkGroups (run (deepSearch_init ss n w) acts)).
            int (length (g_links g)) \<le> n)
     \<and> (map_of (inflight s) (Discovery i) = Some h \<and> detailsMaxNum s = n \<longrightarrow>
          detailLinkGroups
            (settle (Discovery i) (Reply (Some \<lparr>r_links = Some ls, r_title = t, r_content = c\<rparr>)) s)
          = detailLinkGroups s @
              [\<lparr>g_url = s_url h, g_links = take (nat n) ls, g_filename = s_filename h\<rparr>])
     \<and> (let l = \<lparr>link_title = ''t'', link_url = ''u'', link_content = None,
                  link_page_title = None\<rparr>;
            s2 = run (execute_init (JObj [(''query'', JStr ''ai''), (''maxResults'', JNum 2)]))
                  [WindowCreated 7, TabCreated 1, TabUpdated 1 Complete,
                   Settled (Discovery 0)
                     (Reply (Some \<lparr>r_links = Some [l, l, l, l, l, l, l, l, l, l],
                                   r_title = None, r_content = None\<rparr>))]
        in detailLinkGroups s2 =
             [\<lparr>g_url = ''https://www.google.com/search?q=ai'', g_links = [l, l],
               g_filename = ''google.js''\<rparr>]
           \<and> si_total s2 = 2 \<and> pc s2 = P2Create 0 0)"
proof -
  have "groupsBounded (run (deepSearch_init ss n w) acts)"
    by (rule run_bounded) (use assms in \<open>simp_all add: groupsBounded_def\<close>)
  then have a: "\<forall>g \<in> set (detailLinkGroups (run (deepSearch_init ss n w) acts)).
            int (length (g_links g)) \<le> n"
    by (simp add: groupsBounded_def)
  have b: "map_of (inflight s) (Discovery i) = Some h \<and> detailsMaxNum s = n \<longrightarrow>
          detailLinkGroups
            (settle (Discovery i) (Reply (Some \<lparr>r_links = Some ls, r_title = t, r_content = c\<rparr>)) s)
          = detailLinkGroups s @
              [\<lparr>g_url = s_url h, g_links = take (nat n) ls, g_filename = s_filename h\<rparr>]"
    using assms by (auto simp: settle_def discoveryResume_reply slice0_nonneg)
  have c: "(let l = \<lparr>link_title = ''t'', link_url = ''u'', link_content = None,
                  link_page_title = None\<rparr>;
            s2 = run (execute_init (JObj [(''query'', JStr ''ai''), (''maxResults'', JNum 2)]))
                  [WindowCreated 7, TabCreated 1, TabUpdated 1 Complete,
                   Settled (Discovery 0)
                     (Reply (Some \<lparr>r_links = Some [l, l, l, l, l, l, l, l, l, l],
                                   r_title = None, r_content = None\<rparr>))]
        in detailLinkGroups s2 =
             [\<lparr>g_url = ''https://www.google.com/search?q=ai'', g_links = [l, l],
               g_filename = ''google.js''\<rparr>]
           \<and> si_total s2 = 2 \<and> pc s2 = P2Create 0 0)"
    by code_simp
  from a b c show ?thesis by blast
qed

theorem discovery_truncates_witness:
  "(0::int) \<le> 1 \<and>
   map (\<lambda>g. length (g_links g))
     (detailLinkGroups
        (run (deepSearch_init [(''https://bing.com'', ''ai'')] 1 (Some 7))
           [TabCreated 1, TabUpdated 1 Complete,
            Settled (Discovery 0)
              (Reply (Some \<lparr>r_links = Some
                   [\<lparr>link_title = ''a'', link_url = ''u'', link_content = None,
                     link_page_title = None\<rparr>,
                    \<lparr>link_title = ''b'', link_url = ''v'', link_content = None,
                     link_page_title = None\<rparr>], r_title = None, r_content = None\<rparr>))])) = [1]"
proof -
  have n: "(0::int) \<le> 1" by simp
  have e: "map (\<lambda>g. length (g_links g))
     (detailLinkGroups
        (run (deepSearch_init [(''https://bing.com'', ''ai'')] 1 (Some 7))
           [TabCreated 1, TabUpdated 1 Complete,
            Settled (Discovery 0)
              (Reply (Some \<lparr>r_links = Some
                   [\<lparr>link_title = ''a'', link_url = ''u'', link_content = None,
                     link_page_title = None\<rparr>,
                    \<lparr>link_title = ''b'', link_url = ''v'', link_content = None,
                     link_page_title = None\<rparr>], r_title = None, r_content = None\<rparr>))])) = [1]"
    by code_simp
  from discovery_truncates [OF n] n e show ?thesis by simp
qed

section \<open>The counters of \<open>searchInfo\<close>\<close>








lemma cnt_Nil [simp]: "cnt d [] = 0"
  by (simp add: cnt_def)

subsection \<open>The loops of \<open>doPageContent\<close>\<close>





subsection \<open>What a handler does to the counters\<close>


lemma deliver_counters [simp]:
  "si_total (deliver t st e s) = si_total s"
  "si_succeed (deliver t st e s) = si_succeed s"
  "si_failed (deliver t st e s) = si_failed s"
  "si_failedLinks (deliver t st e s) = si_failedLinks s"
  "searchs (deliver t st e s) = searchs s"
proof -
  obtain eid h where e: "e = (eid, h)" by (cases e)
  show "si_total (deliver t st e s) = si_total s"
    unfolding e by (cases eid; cases st) (simp_all add: handler_defs prim_defs Let_def)
  show "si_succeed (deliver t st e s) = si_succeed s"
    unfolding e by (cases eid; cases st) (simp_all add: handler_defs prim_defs Let_def)
  show "si_failed (deliver t st e s) = si_failed s"
    unfolding e by (cases eid; cases st) (simp_all add: handler_defs prim_defs Let_def)
  show "si_failedLinks (deliver t st e s) = si_failedLinks s"
    unfolding e by (cases eid; cases st) (simp_all add: handler_defs prim_defs Let_def)
  show "searchs (deliver t st e s) = searchs s"
    unfolding e by (cases eid; cases st) (simp_all add: handler_defs prim_defs Let_def)
qed

lemma deliver_linkCounts [simp]: "linkCounts (deliver t st e s) = linkCounts s"
  by (simp add: linkCounts_def)

lemma deliver_pending [simp]: "pendingLinks (deliver t st e s) = pendingLinks s"
  by (simp add: pendingLinks_def split: pc.splits)




subsection \<open>Content extraction keeps its invariant\<close>











subsection \<open>Link discovery for one search keeps its invariant\<close>



lemma stats_pc [simp]: "stats (s\<lparr>pc := p\<rparr>) = stats s"
  by (simp add: stats_def)

lemma alive_pc [simp]: "alive d (s\<lparr>pc := p\<rparr>) = alive d s"
  by (simp add: alive_def)

lemma linkCounts_pc [simp]: "linkCounts (s\<lparr>pc := p\<rparr>) = linkCounts s"
  by (simp add: linkCounts_def)




subsection \<open>Every step keeps one of the two\<close>




















section \<open>The counters for any number of searches\<close>

subsection \<open>Count-downs of the extraction listeners\<close>

lemma counted_pc [simp]:
  "counted (s\<lparr>pc := p\<rparr>) = counted s" "unloaded (s\<lparr>pc := p\<rparr>) = unloaded s"
  by (simp_all add: counted_def unloaded_def)

lemma finish_counted [simp]:
  "counted (finish s) = counted s" "unloaded (finish s) = unloaded s"
  by (simp_all add: finish_def counted_def unloaded_def split: option.splits)

lemma enterP2Await_counted [simp]:
  "counted (enterP2Await s) = counted s" "unloaded (enterP2Await s) = unloaded s"
  by (simp_all add: enterP2Await_def)

lemma advanceP2_counted [simp]:
  "counted (advanceP2 s i j) = counted s" "unloaded (advanceP2 s i j) = unloaded s"
  by (simp_all add: advanceP2_def split: option.splits)

lemma startPhase2_counted [simp]:
  "counted (startPhase2 s) = counted s" "unloaded (startPhase2 s) = unloaded s"
proof -
  have "counted (s\<lparr>si_total := a, si_running := b, si_succeed := c, si_failed := d,
      si_failedLinks := e, latch2 := f\<rparr>) = counted s" for a b c d e f
    by (simp add: counted_def)
  then show "counted (startPhase2 s) = counted s" by (simp add: startPhase2_def Let_def)
  have "unloaded (s\<lparr>si_total := a, si_running := b, si_succeed := c, si_failed := d,
      si_failedLinks := e, latch2 := f\<rparr>) = unloaded s" for a b c d e f
    by (simp add: unloaded_def)
  then show "unloaded (startPhase2 s) = unloaded s" by (simp add: startPhase2_def Let_def)
qed


lemma advanceP2_phase [simp]: "\<not> phase1 (pc (advanceP2 s i j))"
  by (simp add: advanceP2_def enterP2Await_def split: option.splits)

lemma startPhase2_phase [simp]: "\<not> phase1 (pc (startPhase2 s))"
  by (simp add: startPhase2_def Let_def)

lemma wake_counted [simp]:
  "counted (wake s) = counted s" "unloaded (wake s) = unloaded s"
  by (simp_all add: wake_def split: pc.splits)




subsection \<open>The ledger is kept by every step\<close>



















subsection \<open>The links counted in \<open>total\<close>, while none is added behind the loops\<close>












lemma linkCounts_wake [simp]: "linkCounts (wake s) = linkCounts s"
  by (simp add: linkCounts_def)







subsection \<open>A handler changes a counter only when it counts the barrier down\<close>



subsection \<open>Nothing is taken from the trace\<close>

lemma extends_refl [simp]: "extends s s"
  by (simp add: extends_def)























end
